theory Spec2Isabelle
  imports Complex_Main "HOL-Library.AList"
begin

section \<open>The Bugzilla REST backend of perceval: live fetch and replay from the cache\<close>

text \<open>
  The development follows \<^verbatim>\<open>perceval/backends/bugzillarest.py\<close>: the client that
  sends the GET calls, the backend that pages over the bug list and buffers every raw
  response in the cache queue, and the generator that rebuilds the bugs from the
  cache. A generator is modelled by the run that consumes it to its end: the list of
  the items it yielded, the exception that ended it (if one did), and the state left
  behind. The \<^verbatim>\<open>@metadata\<close> decorator of \<^verbatim>\<open>fetch\<close> and
  \<^verbatim>\<open>fetch_from_cache\<close> lives in \<^verbatim>\<open>perceval/backend.py\<close>; the
  models are those of the decorated generator bodies.
\<close>

subsection \<open>Decoded JSON and the Python operations applied to it\<close>

text \<open>
  What \<^verbatim>\<open>json.loads\<close> returns. A dict is the list of its items in insertion
  order (its keys are strings and distinct); a float is carried by its \<^verbatim>\<open>repr\<close>.
\<close>

datatype json =
    JNull
  | JBool bool
  | JInt int
  | JFloat string
  | JStr string
  | JArr "json list"
  | JObj "(string \<times> json) list"

text \<open>The exceptions the modelled code can raise.\<close>

datatype error =
    ValueError
  | KeyError
  | TypeError
  | IndexError
  | StopIteration
  | HTTPError nat
  | ConnectionError
  | CacheError
  | BackendError string
  | InvalidDateError
  | RuntimeError

text \<open>\<^verbatim>\<open>obj[key]\<close> for a string key.\<close>

fun get_key :: "json \<Rightarrow> string \<Rightarrow> error + json" where
  "get_key (JObj kvs) k = (case map_of kvs k of None \<Rightarrow> Inl KeyError | Some v \<Rightarrow> Inr v)"
| "get_key _ k = Inl TypeError"

text \<open>\<^verbatim>\<open>obj[0]\<close>: the first element of a list, the first character of a string;
  a decoded dict has string keys only, so the key \<^verbatim>\<open>0\<close> is missing.\<close>

fun get_first :: "json \<Rightarrow> error + json" where
  "get_first (JArr xs) = (case xs of [] \<Rightarrow> Inl IndexError | x # _ \<Rightarrow> Inr x)"
| "get_first (JStr s) = (case s of [] \<Rightarrow> Inl IndexError | c # _ \<Rightarrow> Inr (JStr [c]))"
| "get_first (JObj kvs) = Inl KeyError"
| "get_first _ = Inl TypeError"

text \<open>\<^verbatim>\<open>obj[key] = v\<close>: an existing key keeps its place, a new one goes last.\<close>

fun set_key :: "json \<Rightarrow> string \<Rightarrow> json \<Rightarrow> error + json" where
  "set_key (JObj kvs) k v = Inr (JObj (AList.update k v kvs))"
| "set_key _ k v = Inl TypeError"

text \<open>\<^verbatim>\<open>len(obj)\<close>.\<close>

fun py_len :: "json \<Rightarrow> error + nat" where
  "py_len (JArr xs) = Inr (length xs)"
| "py_len (JObj kvs) = Inr (length kvs)"
| "py_len (JStr s) = Inr (length s)"
| "py_len _ = Inl TypeError"

text \<open>The items \<^verbatim>\<open>for x in obj\<close> goes through: the elements of a list, the keys
  of a dict, the characters of a string.\<close>

fun py_iter :: "json \<Rightarrow> error + json list" where
  "py_iter (JArr xs) = Inr xs"
| "py_iter (JObj kvs) = Inr (map (\<lambda>kv. JStr (fst kv)) kvs)"
| "py_iter (JStr s) = Inr (map (\<lambda>c. JStr [c]) s)"
| "py_iter _ = Inl TypeError"

text \<open>Truth value of an object, as \<^verbatim>\<open>if obj:\<close> tests it.\<close>

fun truthy :: "json \<Rightarrow> bool" where
  "truthy JNull = False"
| "truthy (JBool b) = b"
| "truthy (JInt i) = (i \<noteq> 0)"
| "truthy (JFloat f) = (f \<noteq> ''0.0'' \<and> f \<noteq> ''-0.0'')"
| "truthy (JStr s) = (s \<noteq> [])"
| "truthy (JArr xs) = (xs \<noteq> [])"
| "truthy (JObj kvs) = (kvs \<noteq> [])"

text \<open>\<^verbatim>\<open>str(obj)\<close>: decimal digits for an integer.\<close>

definition digit_chars :: string where
  "digit_chars = ''0123456789''"

fun dec_nat :: "nat \<Rightarrow> string" where
  "dec_nat n =
     (if n < 10 then [digit_chars ! n] else dec_nat (n div 10) @ [digit_chars ! (n mod 10)])"

declare dec_nat.simps [simp del]

definition str_int :: "int \<Rightarrow> string" where
  "str_int i = (if i < 0 then CHR ''-'' # dec_nat (nat (- i)) else dec_nat (nat i))"

text \<open>The first argument gives the \<^verbatim>\<open>repr\<close> of lists and dicts, which
  \<^verbatim>\<open>str\<close> returns for them.\<close>

fun py_str :: "(json \<Rightarrow> string) \<Rightarrow> json \<Rightarrow> string" where
  "py_str r JNull = ''None''"
| "py_str r (JBool b) = (if b then ''True'' else ''False'')"
| "py_str r (JInt i) = str_int i"
| "py_str r (JFloat f) = f"
| "py_str r (JStr s) = s"
| "py_str r v = r v"

text \<open>Sequencing of two steps that may raise.\<close>

definition ebind :: "error + 'a \<Rightarrow> ('a \<Rightarrow> error + 'b) \<Rightarrow> error + 'b" where
  "ebind m f = (case m of Inl err \<Rightarrow> Inl err | Inr v \<Rightarrow> f v)"

subsection \<open>The environment of the module\<close>

text \<open>
  What the module imports and this development does not define: the JSON decoder
  (\<^verbatim>\<open>None\<close> where \<^verbatim>\<open>json.loads\<close> raises \<^verbatim>\<open>ValueError\<close>), the
  \<^verbatim>\<open>repr\<close> of containers, and from \<^verbatim>\<open>perceval/utils.py\<close> the helper
  \<^verbatim>\<open>urljoin\<close>, the constant \<^verbatim>\<open>DEFAULT_DATETIME\<close>, the conversion
  \<^verbatim>\<open>datetime_to_utc(d).strftime("%Y-%m-%dT%H:%M:%SZ")\<close> of a date of type \<open>'d\<close>,
  and the parser \<^verbatim>\<open>str_to_datetime\<close>, which returns a timezone-aware
  \<^verbatim>\<open>datetime\<close> or raises. \<open>generator_stop\<close> tells which interpreter runs
  the module: whether PEP 479 is in force, as it is from Python 3.7 on (the module has
  no \<^verbatim>\<open>from __future__ import generator_stop\<close> to put it in force earlier).
\<close>

text \<open>
  A timezone-aware \<^verbatim>\<open>datetime\<close>, as far as \<^verbatim>\<open>timestamp()\<close> reads it:
  \<open>wall\<close> is the reading of its own clock, in whole seconds since the reading
  1970-01-01T00:00:00, and \<open>utcoffset\<close> the offset of its timezone from UTC in seconds.
\<close>

record datetime =
  wall :: int
  microsecond :: nat
  utcoffset :: int

record 'd env =
  loads :: "string \<Rightarrow> json option"
  repr :: "json \<Rightarrow> string"
  urljoin :: "json list \<Rightarrow> string"
  DEFAULT_DATETIME :: "'d"
  utc_stamp :: "'d \<Rightarrow> string"
  str_to_datetime :: "json \<Rightarrow> error + datetime"
  generator_stop :: bool

definition json_loads :: "'d env \<Rightarrow> string \<Rightarrow> error + json" where
  "json_loads e raw = (case loads e raw of None \<Rightarrow> Inl ValueError | Some v \<Rightarrow> Inr v)"

subsection \<open>The state of a run\<close>

text \<open>
  The remote server is the list of the replies it will give, in order: a reply is a
  status code with a body, or no reply at all (the connection fails). Every request
  sent is logged.
\<close>

datatype reply = Reply nat string | NoReply

type_synonym params = "(string \<times> json) list"

text \<open>
  \<open>cache\<close> is the committed content of the cache (\<^verbatim>\<open>None\<close> when the backend
  was built without one) and \<open>cache_queue\<close> the entries buffered and not committed.
\<close>

record state =
  cache :: "string list option"
  cache_queue :: "string list"
  script :: "reply list"
  sent :: "(string \<times> params) list"

text \<open>
  Modelled from the spec: the cache queue of \<^verbatim>\<open>Backend\<close>
  (\<^verbatim>\<open>perceval/backend.py\<close>) and the \<^verbatim>\<open>Cache\<close> behind it
  (\<^verbatim>\<open>perceval/cache.py\<close>) are missing from the sources. The spec gives the
  cache as an append-only sequence of raw texts with four operations: buffer an entry,
  commit the buffered entries, discard the uncommitted entries, and read the committed
  entries back in their original order. With no cache configured there is nothing to
  commit to, and a commit leaves the state as it is.
\<close>

definition push_cache_queue :: "string \<Rightarrow> state \<Rightarrow> state" where
  "push_cache_queue item s = s\<lparr>cache_queue := cache_queue s @ [item]\<rparr>"

definition flush_cache_queue :: "state \<Rightarrow> state" where
  "flush_cache_queue s =
     (case cache s of
        None \<Rightarrow> s
      | Some items \<Rightarrow> s\<lparr>cache := Some (items @ cache_queue s), cache_queue := []\<rparr>)"

definition purge_cache_queue :: "state \<Rightarrow> state" where
  "purge_cache_queue s = s\<lparr>cache_queue := []\<rparr>"

subsection \<open>BugzillaRESTClient\<close>

record client =
  base_url :: string
  api_token :: json

text \<open>\<^verbatim>\<open>requests.get(url, params=params)\<close> followed by \<^verbatim>\<open>raise_for_status()\<close>,
  which raises for the status codes 400 to 599.\<close>

definition requests_get :: "string \<Rightarrow> params \<Rightarrow> state \<Rightarrow> (error + nat \<times> string) \<times> state" where
  "requests_get u ps s =
     (let s' = s\<lparr>sent := sent s @ [(u, ps)]\<rparr> in
      case script s of
        [] \<Rightarrow> (Inl ConnectionError, s')
      | NoReply # rs \<Rightarrow> (Inl ConnectionError, s'\<lparr>script := rs\<rparr>)
      | Reply status body # rs \<Rightarrow> (Inr (status, body), s'\<lparr>script := rs\<rparr>))"

definition raise_for_status :: "nat \<Rightarrow> error option" where
  "raise_for_status status = (if 400 \<le> status \<and> status < 600 then Some (HTTPError status) else None)"

definition call :: "client \<Rightarrow> string \<Rightarrow> params \<Rightarrow> state \<Rightarrow> (error + string) \<times> state" where
  "call c resource ps s =
     (let u = base_url c @ ''/rest/'' @ resource;
          ps' = (if truthy (api_token c) then AList.update ''token'' (api_token c) ps else ps)
      in case requests_get u ps' s of
           (Inl err, s') \<Rightarrow> (Inl err, s')
         | (Inr (status, body), s') \<Rightarrow>
             (case raise_for_status status of
                Some err \<Rightarrow> (Inl err, s')
              | None \<Rightarrow> (Inr body, s')))"

definition login :: "'d env \<Rightarrow> client \<Rightarrow> string \<Rightarrow> string \<Rightarrow> state \<Rightarrow> (error + client) \<times> state" where
  "login e c user password s =
     (case call c ''login'' [(''login'', JStr user), (''password'', JStr password)] s of
        (Inl (HTTPError status), s') \<Rightarrow> (Inl (BackendError user), s')
      | (Inl err, s') \<Rightarrow> (Inl err, s')
      | (Inr r, s') \<Rightarrow>
          (case ebind (json_loads e r) (\<lambda>data. get_key data ''token'') of
             Inl err \<Rightarrow> (Inl err, s')
           | Inr token \<Rightarrow> (Inr (c\<lparr>api_token := token\<rparr>), s')))"

definition client_init ::
  "'d env \<Rightarrow> string \<Rightarrow> string option \<Rightarrow> string option \<Rightarrow> string option \<Rightarrow> state
     \<Rightarrow> (error + client) \<times> state" where
  "client_init e base user password token s =
     (let c = \<lparr>base_url = base,
               api_token = (case token of None \<Rightarrow> JNull | Some t \<Rightarrow> if t \<noteq> [] then JStr t else JNull)\<rparr>
      in case (user, password) of
           (Some u, Some p) \<Rightarrow> login e c u p s
         | _ \<Rightarrow> (Inr c, s))"

definition client_bugs ::
  "'d env \<Rightarrow> client \<Rightarrow> 'd \<Rightarrow> int \<Rightarrow> int \<Rightarrow> state \<Rightarrow> (error + string) \<times> state" where
  "client_bugs e c from_date offset limit s =
     (let date = utc_stamp e from_date;
          ps = [(''last_change_time'', JStr date),
                (''limit'', JInt limit),
                (''order'', JStr ''changeddate''),
                (''include_fields'', JStr ''_all'')];
          ps' = (if offset \<noteq> 0 then ps @ [(''offset'', JInt offset)] else ps)
      in call c ''bug'' ps' s)"

definition client_comments :: "'d env \<Rightarrow> client \<Rightarrow> json \<Rightarrow> state \<Rightarrow> (error + string) \<times> state" where
  "client_comments e c bug_id s =
     call c (urljoin e [JStr ''bug'', bug_id, JStr ''comment'']) [] s"

definition client_history :: "'d env \<Rightarrow> client \<Rightarrow> json \<Rightarrow> state \<Rightarrow> (error + string) \<times> state" where
  "client_history e c bug_id s =
     call c (urljoin e [JStr ''bug'', bug_id, JStr ''history'']) [] s"

definition client_attachments :: "'d env \<Rightarrow> client \<Rightarrow> json \<Rightarrow> state \<Rightarrow> (error + string) \<times> state" where
  "client_attachments e c bug_id s =
     call c (urljoin e [JStr ''bug'', bug_id, JStr ''attachment'']) [(''exclude_fields'', JStr ''data'')] s"

subsection \<open>BugzillaREST\<close>

record backend =
  origin :: string
  url :: string
  max_bugs :: int
  client :: client

text \<open>
  The constructor. \<open>store\<close> is the cache object passed (its committed content), or
  \<^verbatim>\<open>None\<close>. \<^verbatim>\<open>Backend.__init__\<close> is missing from the sources as well:
  it is taken to keep the origin and the cache it is given and to start with an empty
  queue.
\<close>

definition backend_init ::
  "'d env \<Rightarrow> string \<Rightarrow> string option \<Rightarrow> string option \<Rightarrow> string option \<Rightarrow> int
     \<Rightarrow> string list option \<Rightarrow> string option \<Rightarrow> state \<Rightarrow> (error + backend) \<times> state" where
  "backend_init e u user password token limit store orig s =
     (let orig' = (case orig of None \<Rightarrow> u | Some x \<Rightarrow> if x \<noteq> [] then x else u);
          s0 = s\<lparr>cache := store, cache_queue := []\<rparr>
      in case client_init e u user password token s0 of
           (Inl err, s1) \<Rightarrow> (Inl err, s1)
         | (Inr c, s1) \<Rightarrow>
             (Inr \<lparr>origin = orig', url = u, max_bugs = max 1 limit, client = c\<rparr>, s1))"

definition fetch_and_parse_comments ::
  "'d env \<Rightarrow> backend \<Rightarrow> json \<Rightarrow> state \<Rightarrow> (error + json) \<times> state" where
  "fetch_and_parse_comments e b bug_id s =
     (case client_comments e (client b) bug_id s of
        (Inl err, s1) \<Rightarrow> (Inl err, s1)
      | (Inr raw_comments, s1) \<Rightarrow>
          (let s2 = push_cache_queue raw_comments s1 in
           (ebind (ebind (ebind (json_loads e raw_comments)
              (\<lambda>data. get_key data ''bugs''))
              (\<lambda>x. get_key x (py_str (repr e) bug_id)))
              (\<lambda>y. get_key y ''comments''), s2)))"

definition fetch_and_parse_history ::
  "'d env \<Rightarrow> backend \<Rightarrow> json \<Rightarrow> state \<Rightarrow> (error + json) \<times> state" where
  "fetch_and_parse_history e b bug_id s =
     (case client_history e (client b) bug_id s of
        (Inl err, s1) \<Rightarrow> (Inl err, s1)
      | (Inr raw_history, s1) \<Rightarrow>
          (let s2 = push_cache_queue raw_history s1 in
           (ebind (ebind (ebind (json_loads e raw_history)
              (\<lambda>data. get_key data ''bugs''))
              (\<lambda>x. get_first x))
              (\<lambda>y. get_key y ''history''), s2)))"

definition fetch_and_parse_attachments ::
  "'d env \<Rightarrow> backend \<Rightarrow> json \<Rightarrow> state \<Rightarrow> (error + json) \<times> state" where
  "fetch_and_parse_attachments e b bug_id s =
     (case client_attachments e (client b) bug_id s of
        (Inl err, s1) \<Rightarrow> (Inl err, s1)
      | (Inr raw_attachments, s1) \<Rightarrow>
          (let s2 = push_cache_queue raw_attachments s1 in
           (ebind (ebind (json_loads e raw_attachments)
              (\<lambda>data. get_key data ''bugs''))
              (\<lambda>x. get_key x (py_str (repr e) bug_id)), s2)))"

text \<open>
  The \<^verbatim>\<open>for bug in data['bugs']\<close> loop of \<^verbatim>\<open>__fetch_bugs\<close>: the bugs
  yielded, the exception that stopped the loop (if any), and the state.
\<close>

fun fetch_page_bugs ::
  "'d env \<Rightarrow> backend \<Rightarrow> json list \<Rightarrow> state \<Rightarrow> json list \<times> error option \<times> state" where
  "fetch_page_bugs e b [] s = ([], None, s)"
| "fetch_page_bugs e b (bug # bugs) s =
     (case get_key bug ''id'' of
        Inl err \<Rightarrow> ([], Some err, s)
      | Inr bug_id \<Rightarrow>
     (case fetch_and_parse_comments e b bug_id s of
        (Inl err, s1) \<Rightarrow> ([], Some err, s1)
      | (Inr comments, s1) \<Rightarrow>
     (case set_key bug ''comments'' comments of
        Inl err \<Rightarrow> ([], Some err, s1)
      | Inr bug1 \<Rightarrow>
     (case fetch_and_parse_history e b bug_id s1 of
        (Inl err, s2) \<Rightarrow> ([], Some err, s2)
      | (Inr history, s2) \<Rightarrow>
     (case set_key bug1 ''history'' history of
        Inl err \<Rightarrow> ([], Some err, s2)
      | Inr bug2 \<Rightarrow>
     (case fetch_and_parse_attachments e b bug_id s2 of
        (Inl err, s3) \<Rightarrow> ([], Some err, s3)
      | (Inr attachments, s3) \<Rightarrow>
     (case set_key bug2 ''attachments'' attachments of
        Inl err \<Rightarrow> ([], Some err, s3)
      | Inr bug3 \<Rightarrow>
     (case fetch_page_bugs e b bugs s3 of
        (ys, out, s4) \<Rightarrow> (bug3 # ys, out, s4)))))))))"

text \<open>
  The \<^verbatim>\<open>while True\<close> loop of \<^verbatim>\<open>__fetch_bugs\<close>. Every turn takes a
  reply from the server, so the loop is defined by recursion on the replies left.
\<close>

lemma requests_get_script:
  "requests_get u ps s = (r, s') \<Longrightarrow> length (script s') \<le> length (script s)"
  by (auto simp: requests_get_def Let_def split: list.splits reply.splits)

lemma requests_get_script_less:
  "requests_get u ps s = (Inr x, s') \<Longrightarrow> length (script s') < length (script s)"
  by (auto simp: requests_get_def Let_def split: list.splits reply.splits)

lemma call_script:
  "call c res ps s = (r, s') \<Longrightarrow> length (script s') \<le> length (script s)"
  by (auto simp: call_def Let_def split: prod.splits sum.splits option.splits
      dest: requests_get_script)

lemma call_script_less:
  "call c res ps s = (Inr x, s') \<Longrightarrow> length (script s') < length (script s)"
  by (auto simp: call_def Let_def split: prod.splits sum.splits option.splits
      dest: requests_get_script_less)

lemma push_cache_queue_script [simp]: "script (push_cache_queue x s) = script s"
  by (simp add: push_cache_queue_def)

lemma flush_cache_queue_script [simp]: "script (flush_cache_queue s) = script s"
  by (simp add: flush_cache_queue_def split: option.splits)

lemma fetch_and_parse_comments_script:
  "fetch_and_parse_comments e b i s = (r, s') \<Longrightarrow> length (script s') \<le> length (script s)"
  by (auto simp: fetch_and_parse_comments_def client_comments_def Let_def
      split: prod.splits sum.splits dest: call_script)

lemma fetch_and_parse_history_script:
  "fetch_and_parse_history e b i s = (r, s') \<Longrightarrow> length (script s') \<le> length (script s)"
  by (auto simp: fetch_and_parse_history_def client_history_def Let_def
      split: prod.splits sum.splits dest: call_script)

lemma fetch_and_parse_attachments_script:
  "fetch_and_parse_attachments e b i s = (r, s') \<Longrightarrow> length (script s') \<le> length (script s)"
  by (auto simp: fetch_and_parse_attachments_def client_attachments_def Let_def
      split: prod.splits sum.splits dest: call_script)

lemma fetch_page_bugs_script:
  "fetch_page_bugs e b bugs s = (ys, out, s') \<Longrightarrow> length (script s') \<le> length (script s)"
proof (induction bugs arbitrary: s ys out s')
  case Nil
  then show ?case by simp
next
  case (Cons bug bugs)
  show ?case
    using Cons.prems
    by (auto split: sum.splits prod.splits
        dest!: fetch_and_parse_comments_script fetch_and_parse_history_script
          fetch_and_parse_attachments_script Cons.IH)
qed

lemma fetch_bugs_turn:
  assumes "(Inr raw, s1) = client_bugs e c d off lm s"
    and "(ys, out, s2) = fetch_page_bugs e b bugs (push_cache_queue raw s1)"
  shows "length (script s2) < length (script s)"
proof -
  from assms(1) have "length (script s1) < length (script s)"
    by (auto simp: client_bugs_def Let_def dest: call_script_less [OF sym])
  moreover from assms(2) have "length (script s2) \<le> length (script (push_cache_queue raw s1))"
    by (auto dest: fetch_page_bugs_script [OF sym])
  ultimately show ?thesis by simp
qed

function fetch_bugs ::
  "'d env \<Rightarrow> backend \<Rightarrow> 'd \<Rightarrow> int \<Rightarrow> state \<Rightarrow> json list \<times> error option \<times> state" where
  "fetch_bugs e b from_date offset s =
     (case client_bugs e (client b) from_date offset (max_bugs b) s of
        (Inl err, s1) \<Rightarrow> ([], Some err, s1)
      | (Inr raw_bugs, s1) \<Rightarrow>
     (case json_loads e raw_bugs of
        Inl err \<Rightarrow> ([], Some err, push_cache_queue raw_bugs s1)
      | Inr data \<Rightarrow>
     (case get_key data ''bugs'' of
        Inl err \<Rightarrow> ([], Some err, push_cache_queue raw_bugs s1)
      | Inr bl \<Rightarrow>
     (case py_len bl of
        Inl err \<Rightarrow> ([], Some err, push_cache_queue raw_bugs s1)
      | Inr n \<Rightarrow>
          if n = 0 then ([], None, push_cache_queue raw_bugs s1)
          else
     (case py_iter bl of
        Inl err \<Rightarrow> ([], Some err, push_cache_queue raw_bugs s1)
      | Inr bugs \<Rightarrow>
     (case fetch_page_bugs e b bugs (push_cache_queue raw_bugs s1) of
        (ys, Some err, s2) \<Rightarrow> (ys, Some err, s2)
      | (ys, None, s2) \<Rightarrow>
     (case fetch_bugs e b from_date (offset + max_bugs b) (flush_cache_queue s2) of
        (zs, out, s3) \<Rightarrow> (ys @ zs, out, s3))))))))"
  by pat_completeness auto
termination
proof (relation "measure (\<lambda>(e, b, from_date, offset, s). length (script s))", goal_cases)
  case 1
  show ?case by simp
next
  case 2
  then show ?case
    by (auto intro: fetch_bugs_turn)
qed

declare fetch_bugs.simps [simp del]

definition fetch :: "'d env \<Rightarrow> backend \<Rightarrow> 'd option \<Rightarrow> state \<Rightarrow> json list \<times> error option \<times> state" where
  "fetch e b from_date s =
     (let from_date' = (case from_date of None \<Rightarrow> DEFAULT_DATETIME e | Some d \<Rightarrow> d) in
      fetch_bugs e b from_date' 0 (purge_cache_queue s))"

subsection \<open>Replay from the cache\<close>

text \<open>\<^verbatim>\<open>next(cache_items)\<close> on the iterator over the committed entries.\<close>

definition py_next :: "string list \<Rightarrow> error + string \<times> string list" where
  "py_next items = (case items of [] \<Rightarrow> Inl StopIteration | x # rest \<Rightarrow> Inr (x, rest))"

text \<open>
  The \<^verbatim>\<open>for bug in bugs['bugs']\<close> loop of \<^verbatim>\<open>fetch_from_cache\<close>: the bugs
  yielded, and the exception that stopped the loop or the entries left in the iterator.
\<close>

fun cached_page_bugs ::
  "'d env \<Rightarrow> json list \<Rightarrow> string list \<Rightarrow> json list \<times> (error + string list)" where
  "cached_page_bugs e [] items = ([], Inr items)"
| "cached_page_bugs e (bug # bugs) items =
     (case get_key bug ''id'' of
        Inl err \<Rightarrow> ([], Inl err)
      | Inr bug_id \<Rightarrow>
     (case ebind (py_next items) (\<lambda>(raw, rest). ebind (json_loads e raw) (\<lambda>v. Inr (v, rest))) of
        Inl err \<Rightarrow> ([], Inl err)
      | Inr (cdata, items1) \<Rightarrow>
     (case ebind (py_next items1) (\<lambda>(raw, rest). ebind (json_loads e raw) (\<lambda>v. Inr (v, rest))) of
        Inl err \<Rightarrow> ([], Inl err)
      | Inr (hdata, items2) \<Rightarrow>
     (case ebind (py_next items2) (\<lambda>(raw, rest). ebind (json_loads e raw) (\<lambda>v. Inr (v, rest))) of
        Inl err \<Rightarrow> ([], Inl err)
      | Inr (adata, items3) \<Rightarrow>
     (case ebind (ebind (get_key cdata ''bugs'')
             (\<lambda>x. get_key x (py_str (repr e) bug_id)))
             (\<lambda>y. get_key y ''comments'') of
        Inl err \<Rightarrow> ([], Inl err)
      | Inr comments \<Rightarrow>
     (case set_key bug ''comments'' comments of
        Inl err \<Rightarrow> ([], Inl err)
      | Inr bug1 \<Rightarrow>
     (case ebind (ebind (get_key hdata ''bugs'')
             (\<lambda>x. get_first x))
             (\<lambda>y. get_key y ''history'') of
        Inl err \<Rightarrow> ([], Inl err)
      | Inr history \<Rightarrow>
     (case set_key bug1 ''history'' history of
        Inl err \<Rightarrow> ([], Inl err)
      | Inr bug2 \<Rightarrow>
     (case ebind (get_key adata ''bugs'')
             (\<lambda>x. get_key x (py_str (repr e) bug_id)) of
        Inl err \<Rightarrow> ([], Inl err)
      | Inr attachments \<Rightarrow>
     (case set_key bug2 ''attachments'' attachments of
        Inl err \<Rightarrow> ([], Inl err)
      | Inr bug3 \<Rightarrow>
     (case cached_page_bugs e bugs items3 of
        (ys, r) \<Rightarrow> (bug3 # ys, r))))))))))))"

lemma cached_page_bugs_length:
  "cached_page_bugs e bugs items = (ys, Inr rest) \<Longrightarrow> length rest \<le> length items"
proof (induction bugs arbitrary: items ys)
  case Nil
  then show ?case by simp
next
  case (Cons bug bugs)
  show ?case
    using Cons.prems
    by (auto simp: ebind_def py_next_def split: sum.splits prod.splits list.splits
        dest!: Cons.IH)
qed

text \<open>The \<^verbatim>\<open>while True\<close> loop of \<^verbatim>\<open>fetch_from_cache\<close> over the committed
  entries.\<close>

function cached_bugs :: "'d env \<Rightarrow> string list \<Rightarrow> json list \<times> error option" where
  "cached_bugs e items =
     (case items of
        [] \<Rightarrow> ([], None)
      | raw_bugs # items1 \<Rightarrow>
     (case json_loads e raw_bugs of
        Inl err \<Rightarrow> ([], Some err)
      | Inr bugs \<Rightarrow>
     (case ebind (get_key bugs ''bugs'') py_iter of
        Inl err \<Rightarrow> ([], Some err)
      | Inr bs \<Rightarrow>
     (case cached_page_bugs e bs items1 of
        (ys, Inl err) \<Rightarrow> (ys, Some err)
      | (ys, Inr items2) \<Rightarrow>
     (case cached_bugs e items2 of
        (zs, out) \<Rightarrow> (ys @ zs, out))))))"
  by pat_completeness auto
termination
proof (relation "measure (\<lambda>(e, items). length items)", goal_cases)
  case 1
  show ?case by simp
next
  case 2
  then show ?case
    by (auto dest!: cached_page_bugs_length [OF sym])
qed

declare cached_bugs.simps [simp del]

text \<open>The body of the generator \<^verbatim>\<open>fetch_from_cache\<close>: what it yields and the
  exception that leaves the body, if one does.\<close>

definition fetch_from_cache_body :: "'d env \<Rightarrow> state \<Rightarrow> json list \<times> error option" where
  "fetch_from_cache_body e s =
     (case cache s of
        None \<Rightarrow> ([], Some CacheError)
      | Some items \<Rightarrow> cached_bugs e items)"

text \<open>
  What the consumer of a generator sees when an exception leaves its body. A
  \<^verbatim>\<open>StopIteration\<close> is not passed on: with PEP 479 in force it is replaced by a
  \<^verbatim>\<open>RuntimeError\<close>, and without it the iteration just ends, as if the body had
  returned. Every other exception reaches the consumer as it is.
\<close>

definition generator_exit :: "bool \<Rightarrow> error option \<Rightarrow> error option" where
  "generator_exit pep479 out =
     (if out = Some StopIteration then (if pep479 then Some RuntimeError else None) else out)"

text \<open>\<^verbatim>\<open>fetch_from_cache\<close> as its consumer sees it. (The body of
  \<^verbatim>\<open>fetch\<close> calls no \<^verbatim>\<open>next\<close> and raises no \<^verbatim>\<open>StopIteration\<close>.)\<close>

definition fetch_from_cache :: "'d env \<Rightarrow> state \<Rightarrow> json list \<times> error option" where
  "fetch_from_cache e s =
     (case fetch_from_cache_body e s of
        (ys, out) \<Rightarrow> (ys, generator_exit (generator_stop e) out))"

text \<open>The static helper \<^verbatim>\<open>metadata_id\<close>.\<close>

definition metadata_id :: "'d env \<Rightarrow> json \<Rightarrow> error + string" where
  "metadata_id e item = ebind (get_key item ''id'') (\<lambda>v. Inr (py_str (repr e) v))"

text \<open>
  \<^verbatim>\<open>datetime.timestamp()\<close> of an aware datetime: the seconds from
  1970-01-01T00:00:00 UTC to the instant it denotes. The value is the exact number;
  Python returns the double nearest to it (the number itself when the datetime has no
  microseconds).
\<close>

definition timestamp :: "datetime \<Rightarrow> real" where
  "timestamp dt = real_of_int (wall dt - utcoffset dt) + real (microsecond dt) / 1000000"

text \<open>The static helper \<^verbatim>\<open>metadata_updated_on\<close>.\<close>

definition metadata_updated_on :: "'d env \<Rightarrow> json \<Rightarrow> error + real" where
  "metadata_updated_on e item =
     ebind (get_key item ''last_change_time'') (\<lambda>ts.
     ebind (str_to_datetime e ts) (\<lambda>ts'. Inr (timestamp ts')))"

subsection \<open>Reading a run, and a small server to run the code on\<close>

definition yielded :: "json list \<times> error option \<times> state \<Rightarrow> json list" where
  "yielded r = fst r"

definition raised :: "json list \<times> error option \<times> state \<Rightarrow> error option" where
  "raised r = fst (snd r)"

definition final :: "json list \<times> error option \<times> state \<Rightarrow> state" where
  "final r = snd (snd r)"

text \<open>
  Five raw responses of a server that holds the single bug 10, and the decoder on
  them; every other text is undecodable.
\<close>

definition ex_empty_page :: string where
  \<open>ex_empty_page = ''{"bugs": []}''\<close>

definition ex_page :: string where
  \<open>ex_page = ''{"bugs": [{"id": 10}]}''\<close>

definition ex_comments :: string where
  \<open>ex_comments = ''{"bugs": {"10": {"comments": [1]}}}''\<close>

definition ex_history :: string where
  \<open>ex_history = ''{"bugs": [{"history": [2]}]}''\<close>

definition ex_attachments :: string where
  \<open>ex_attachments = ''{"bugs": {"10": [3]}}''\<close>

text \<open>The comments and the history of another bug, 11.\<close>

definition ex_comments_11 :: string where
  \<open>ex_comments_11 = ''{"bugs": {"11": {"comments": [4]}}}''\<close>

definition ex_history_11 :: string where
  \<open>ex_history_11 = ''{"bugs": [{"history": [5]}]}''\<close>

definition ex_loads :: "string \<Rightarrow> json option" where
  "ex_loads = map_of
     [(ex_empty_page, JObj [(''bugs'', JArr [])]),
      (ex_page, JObj [(''bugs'', JArr [JObj [(''id'', JInt 10)]])]),
      (ex_comments, JObj [(''bugs'', JObj [(''10'', JObj [(''comments'', JArr [JInt 1])])])]),
      (ex_history, JObj [(''bugs'', JArr [JObj [(''history'', JArr [JInt 2])]])]),
      (ex_attachments, JObj [(''bugs'', JObj [(''10'', JArr [JInt 3])])]),
      (ex_comments_11, JObj [(''bugs'', JObj [(''11'', JObj [(''comments'', JArr [JInt 4])])])]),
      (ex_history_11, JObj [(''bugs'', JArr [JObj [(''history'', JArr [JInt 5])]])])]"

fun ex_urljoin :: "json list \<Rightarrow> string" where
  "ex_urljoin [] = []"
| "ex_urljoin [x] = py_str (\<lambda>v. []) x"
| "ex_urljoin (x # xs) = py_str (\<lambda>v. []) x @ ''/'' @ ex_urljoin xs"

text \<open>The one date the small parser knows: ten o'clock on 1 June 2016, two hours east
  of UTC.\<close>

definition ex_str_to_datetime :: "json \<Rightarrow> error + datetime" where
  "ex_str_to_datetime v =
     (if v = JStr ''2016-06-01T10:00:00+02:00''
      then Inr \<lparr>wall = 1464775200, microsecond = 0, utcoffset = 7200\<rparr>
      else Inl InvalidDateError)"

definition ex_env :: "unit env" where
  "ex_env = \<lparr>loads = ex_loads, repr = (\<lambda>v. []), urljoin = ex_urljoin,
     DEFAULT_DATETIME = (), utc_stamp = (\<lambda>d. ''1970-01-01T00:00:00Z''),
     str_to_datetime = ex_str_to_datetime, generator_stop = True\<rparr>"

definition ex_backend :: backend where
  "ex_backend = \<lparr>origin = ''http://example.com'', url = ''http://example.com'', max_bugs = 500,
     client = \<lparr>base_url = ''http://example.com'', api_token = JNull\<rparr>\<rparr>"

definition ex_state :: "reply list \<Rightarrow> state" where
  "ex_state rs = \<lparr>cache = Some [], cache_queue = [], script = rs, sent = []\<rparr>"

subsection \<open>What the server sends\<close>

text \<open>A reply that \<^verbatim>\<open>call\<close> returns the body of, and the body.\<close>

fun ok_reply :: "reply \<Rightarrow> bool" where
  "ok_reply (Reply status b) = (raise_for_status status = None)"
| "ok_reply NoReply = False"

fun body :: "reply \<Rightarrow> string" where
  "body (Reply status b) = b"
| "body NoReply = []"

text \<open>
  What \<^verbatim>\<open>__fetch_and_parse_comments\<close>, \<^verbatim>\<open>__fetch_and_parse_history\<close> and
  \<^verbatim>\<open>__fetch_and_parse_attachments\<close> compute from the raw text they received.
\<close>

definition parse_comments :: "'d env \<Rightarrow> json \<Rightarrow> string \<Rightarrow> error + json" where
  "parse_comments e bug_id raw =
     ebind (ebind (ebind (json_loads e raw)
       (\<lambda>data. get_key data ''bugs''))
       (\<lambda>x. get_key x (py_str (repr e) bug_id)))
       (\<lambda>y. get_key y ''comments'')"

definition parse_history :: "'d env \<Rightarrow> string \<Rightarrow> error + json" where
  "parse_history e raw =
     ebind (ebind (ebind (json_loads e raw)
       (\<lambda>data. get_key data ''bugs''))
       (\<lambda>x. get_first x))
       (\<lambda>y. get_key y ''history'')"

definition parse_attachments :: "'d env \<Rightarrow> json \<Rightarrow> string \<Rightarrow> error + json" where
  "parse_attachments e bug_id raw =
     ebind (ebind (json_loads e raw)
       (\<lambda>data. get_key data ''bugs''))
       (\<lambda>x. get_key x (py_str (repr e) bug_id))"

text \<open>
  The three raw texts of one bug (comments, history, attachments), and the bug the
  loop body of \<^verbatim>\<open>__fetch_bugs\<close> builds from a shell and its three texts.
\<close>

type_synonym triple = "string \<times> string \<times> string"

fun assemble :: "'d env \<Rightarrow> json \<Rightarrow> triple \<Rightarrow> error + json" where
  "assemble e bug (rc, rh, ra) =
     ebind (get_key bug ''id'') (\<lambda>bug_id.
     ebind (parse_comments e bug_id rc) (\<lambda>comments.
     ebind (set_key bug ''comments'' comments) (\<lambda>bug1.
     ebind (parse_history e rh) (\<lambda>history.
     ebind (set_key bug1 ''history'' history) (\<lambda>bug2.
     ebind (parse_attachments e bug_id ra) (\<lambda>attachments.
     set_key bug2 ''attachments'' attachments))))))"

fun triple_entries :: "triple \<Rightarrow> string list" where
  "triple_entries (rc, rh, ra) = [rc, rh, ra]"

text \<open>
  \<open>fit\<close>: every shell has its three texts and each bug assembles without an
  exception; \<open>assembled\<close>: the bugs built.
\<close>

definition assembled :: "'d env \<Rightarrow> json list \<Rightarrow> triple list \<Rightarrow> json list" where
  "assembled e bugs ts = map (\<lambda>(bug, t). projr (assemble e bug t)) (zip bugs ts)"

definition fit :: "'d env \<Rightarrow> json list \<Rightarrow> triple list \<Rightarrow> bool" where
  "fit e bugs ts =
     (length ts = length bugs \<and> list_all (\<lambda>(bug, t). \<not> isl (assemble e bug t)) (zip bugs ts))"

text \<open>
  A page as the server sends it: the raw text of the bug list and the three texts of
  each of its bugs. \<open>page_bugs\<close> is the list of shells the raw text decodes to,
  \<open>page_entries\<close> the raw texts in the order of the calls, \<open>well_formed\<close> says
  the page has at least one bug and all of them assemble, and \<open>empty_page\<close> that the
  raw text decodes to zero bugs.
\<close>

type_synonym page = "string \<times> triple list"

definition page_bugs :: "'d env \<Rightarrow> string \<Rightarrow> error + json list" where
  "page_bugs e raw =
     ebind (ebind (json_loads e raw) (\<lambda>data. get_key data ''bugs'')) py_iter"

fun page_entries :: "page \<Rightarrow> string list" where
  "page_entries (raw, ts) = raw # concat (map triple_entries ts)"

fun well_formed :: "'d env \<Rightarrow> page \<Rightarrow> bool" where
  "well_formed e (raw, ts) =
     (case page_bugs e raw of Inl err \<Rightarrow> False | Inr bugs \<Rightarrow> bugs \<noteq> [] \<and> fit e bugs ts)"

fun page_yield :: "'d env \<Rightarrow> page \<Rightarrow> json list" where
  "page_yield e (raw, ts) =
     (case page_bugs e raw of Inl err \<Rightarrow> [] | Inr bugs \<Rightarrow> assembled e bugs ts)"

definition empty_page :: "'d env \<Rightarrow> string \<Rightarrow> bool" where
  "empty_page e raw = (page_bugs e raw = Inr [])"

definition page_count :: "'d env \<Rightarrow> page \<Rightarrow> nat" where
  "page_count e p = (case page_bugs e (fst p) of Inl err \<Rightarrow> 0 | Inr bugs \<Rightarrow> length bugs)"

text \<open>The small server again: one page with bug 10, then the empty page.\<close>

definition ex_pages :: "page list" where
  "ex_pages = [(ex_page, [(ex_comments, ex_history, ex_attachments)])]"

definition ex_bug :: json where
  "ex_bug = JObj [(''id'', JInt 10), (''comments'', JArr [JInt 1]),
     (''history'', JArr [JInt 2]), (''attachments'', JArr [JInt 3])]"

definition ex_replies :: "reply list" where
  "ex_replies = [Reply 200 ex_page, Reply 200 ex_comments, Reply 200 ex_history,
     Reply 200 ex_attachments, Reply 200 ex_empty_page]"

section \<open>Properties\<close>

subsection \<open>What a call leaves alone\<close>

lemma call_frame:
  "call c res ps s = (r, s') \<Longrightarrow> cache s' = cache s \<and> cache_queue s' = cache_queue s"
  by (auto simp: call_def requests_get_def Let_def
      split: prod.splits sum.splits option.splits list.splits reply.splits)

lemma client_bugs_frame:
  "client_bugs e c d off lm s = (r, s') \<Longrightarrow> cache s' = cache s \<and> cache_queue s' = cache_queue s"
  unfolding client_bugs_def Let_def by (rule call_frame)

subsection \<open>The page with no bugs\<close>

text \<open>
  C3, as the claim states it: a page that decodes to zero bugs is buffered and then
  committed before the iteration stops. On the server whose first page is empty the run
  ends normally with the page still in the queue and nothing committed: the
  \<^verbatim>\<open>break\<close> leaves the loop before the flush.
\<close>

theorem empty_page_commit_counterexample:
  "raised (fetch ex_env ex_backend None (ex_state [Reply 200 ex_empty_page])) = None
   \<and> cache (final (fetch ex_env ex_backend None (ex_state [Reply 200 ex_empty_page]))) = Some []
   \<and> cache_queue (final (fetch ex_env ex_backend None (ex_state [Reply 200 ex_empty_page])))
       = [ex_empty_page]"
  by code_simp

text \<open>
  C3, amended: in any turn of the loop, when the bug list call returns a page that
  decodes to zero bugs, the raw text of the page is appended to the queue and the loop
  stops there without a flush: nothing is yielded, no exception is raised, the page
  stays buffered and the committed content is the one the turn started with.
\<close>

theorem empty_page_stays_buffered:
  assumes "client_bugs e (client b) d off (max_bugs b) s = (Inr raw, s1)"
    and "json_loads e raw = Inr data"
    and "get_key data ''bugs'' = Inr bl"
    and "py_len bl = Inr 0"
  shows "fetch_bugs e b d off s = ([], None, push_cache_queue raw s1)
         \<and> cache (push_cache_queue raw s1) = cache s
         \<and> cache_queue (push_cache_queue raw s1) = cache_queue s @ [raw]"
  using assms client_bugs_frame [OF assms(1)]
  by (simp add: fetch_bugs.simps push_cache_queue_def)

theorem empty_page_stays_buffered_witness:
  "fetch_bugs ex_env ex_backend () 0 (ex_state [Reply 200 ex_empty_page])
     = ([], None, push_cache_queue ex_empty_page
          (snd (client_bugs ex_env (client ex_backend) () 0 (max_bugs ex_backend)
                 (ex_state [Reply 200 ex_empty_page]))))
   \<and> cache (push_cache_queue ex_empty_page
          (snd (client_bugs ex_env (client ex_backend) () 0 (max_bugs ex_backend)
                 (ex_state [Reply 200 ex_empty_page])))) = Some []
   \<and> cache_queue (push_cache_queue ex_empty_page
          (snd (client_bugs ex_env (client ex_backend) () 0 (max_bugs ex_backend)
                 (ex_state [Reply 200 ex_empty_page])))) = [ex_empty_page]"
proof -
  let ?s = "ex_state [Reply 200 ex_empty_page]"
  let ?s1 = "snd (client_bugs ex_env (client ex_backend) () 0 (max_bugs ex_backend) ?s)"
  have 1: "client_bugs ex_env (client ex_backend) () 0 (max_bugs ex_backend) ?s
             = (Inr ex_empty_page, ?s1)"
    by (simp add: client_bugs_def call_def requests_get_def raise_for_status_def
        ex_state_def ex_backend_def Let_def)
  have 2: "json_loads ex_env ex_empty_page = Inr (JObj [(''bugs'', JArr [])])"
    by (simp add: json_loads_def ex_env_def ex_loads_def)
  have 3: "get_key (JObj [(''bugs'', JArr [])]) ''bugs'' = Inr (JArr [])"
    by simp
  have 4: "py_len (JArr []) = Inr 0"
    by simp
  show ?thesis
    using empty_page_stays_buffered [OF 1 2 3 4] by (simp add: ex_state_def)
qed

subsection \<open>Replay without a cache\<close>

lemma cached_page_bugs_no_cache_error:
  "cached_page_bugs e bugs items = (ys, Inl err) \<Longrightarrow> err \<noteq> CacheError"
proof (induction bugs arbitrary: items ys)
  case Nil
  then show ?case by simp
next
  case (Cons bug bugs)
  have k: "\<And>j k. get_key j k \<noteq> Inl CacheError"
    by (case_tac j) (auto split: option.splits)
  have f: "\<And>j. get_first j \<noteq> Inl CacheError"
    by (case_tac j) (auto split: list.splits)
  have s: "\<And>j k v. set_key j k v \<noteq> Inl CacheError"
    by (case_tac j) auto
  have l: "\<And>raw. json_loads e raw \<noteq> Inl CacheError"
    by (auto simp: json_loads_def split: option.splits)
  show ?case
    using Cons.prems k f s l
    by (auto simp: ebind_def py_next_def split: sum.splits prod.splits list.splits
        dest!: Cons.IH)
qed

lemma cached_bugs_no_cache_error: "snd (cached_bugs e items) \<noteq> Some CacheError"
proof (induction e items rule: cached_bugs.induct)
  case (1 e items)
  have k: "\<And>j k. get_key j k \<noteq> Inl CacheError"
    by (case_tac j) (auto split: option.splits)
  have i: "\<And>j. py_iter j \<noteq> Inl CacheError"
    by (case_tac j) auto
  have l: "\<And>raw. json_loads e raw \<noteq> Inl CacheError"
    by (auto simp: json_loads_def split: option.splits)
  have ih: "snd (cached_bugs e items2) \<noteq> Some CacheError"
    if "items = raw # items1" "json_loads e raw = Inr bugs"
      "ebind (get_key bugs ''bugs'') py_iter = Inr bs"
      "cached_page_bugs e bs items1 = (ys, Inr items2)"
    for raw items1 bugs bs ys items2
    using 1 [OF that(1) that(2) that(3) that(4) [symmetric] refl] .
  show ?case
    using k i l
    by (subst cached_bugs.simps)
      (auto simp: ebind_def split: list.splits sum.splits prod.splits
        dest: cached_page_bugs_no_cache_error ih [unfolded ebind_def])
qed

text \<open>
  C7: on a backend built without a cache, \<^verbatim>\<open>fetch_from_cache\<close> raises
  \<^verbatim>\<open>CacheError\<close> and has yielded nothing; on a backend with a cache, whatever
  the cache holds, the run does not end with \<^verbatim>\<open>CacheError\<close>.
\<close>

theorem cache_unavailable:
  "(cache s = None \<longrightarrow> fetch_from_cache e s = ([], Some CacheError))
   \<and> (cache s \<noteq> None \<longrightarrow> snd (fetch_from_cache e s) \<noteq> Some CacheError)"
proof (intro conjI impI)
  assume "cache s = None"
  then show "fetch_from_cache e s = ([], Some CacheError)"
    by (simp add: fetch_from_cache_def fetch_from_cache_body_def generator_exit_def)
next
  assume "cache s \<noteq> None"
  then obtain items where c: "cache s = Some items"
    by auto
  obtain ys out where r: "cached_bugs e items = (ys, out)"
    by (cases "cached_bugs e items")
  with cached_bugs_no_cache_error [of e items] have "out \<noteq> Some CacheError"
    by simp
  then show "snd (fetch_from_cache e s) \<noteq> Some CacheError"
    using c r by (simp add: fetch_from_cache_def fetch_from_cache_body_def generator_exit_def)
qed

theorem cache_unavailable_witness:
  "fetch_from_cache ex_env \<lparr>cache = None, cache_queue = [], script = [], sent = []\<rparr>
     = ([], Some CacheError)
   \<and> snd (fetch_from_cache ex_env
        \<lparr>cache = Some [ex_page, ex_comments], cache_queue = [], script = [], sent = []\<rparr>)
       \<noteq> Some CacheError"
  using cache_unavailable [of "\<lparr>cache = None, cache_queue = [], script = [], sent = []\<rparr>" ex_env]
    cache_unavailable [of "\<lparr>cache = Some [ex_page, ex_comments], cache_queue = [], script = [], sent = []\<rparr>" ex_env]
  by simp

subsection \<open>The page size\<close>

text \<open>
  C8: a backend built with \<^verbatim>\<open>max_bugs\<close> zero or negative is the backend built
  with \<^verbatim>\<open>max_bugs = 1\<close> (the same construction, calls and errors included), and
  its page size is 1.
\<close>

theorem floor_clamp:
  assumes "limit \<le> 0"
  shows "backend_init e u user password token limit store orig s
           = backend_init e u user password token 1 store orig s
         \<and> (\<forall>b s'. backend_init e u user password token limit store orig s = (Inr b, s')
               \<longrightarrow> max_bugs b = 1)"
  using assms
  by (auto simp: backend_init_def Let_def split: prod.splits sum.splits)

theorem floor_clamp_witness:
  "backend_init ex_env ''http://example.com'' None None None (- 7) (Some []) None (ex_state [])
     = backend_init ex_env ''http://example.com'' None None None 1 (Some []) None (ex_state [])
   \<and> backend_init ex_env ''http://example.com'' None None None (- 7) (Some []) None (ex_state [])
     = (Inr (ex_backend\<lparr>max_bugs := 1\<rparr>), ex_state [])"
  using floor_clamp [of "- 7" ex_env "''http://example.com''" None None None "Some []" None "ex_state []"]
  by (simp add: backend_init_def client_init_def ex_backend_def ex_state_def Let_def)

subsection \<open>Entries left in the queue by an earlier run\<close>

text \<open>
  C5: \<^verbatim>\<open>fetch\<close> empties the queue before its first call to the server, so the
  whole run (the bugs yielded, the way it ends, the committed content and the queue
  it leaves) is the run from an empty queue, whatever entries \<open>q\<close> an earlier run
  left buffered.
\<close>

theorem purge_before_fetch:
  "fetch e b from_date (s\<lparr>cache_queue := q\<rparr>) = fetch e b from_date (s\<lparr>cache_queue := []\<rparr>)"
  by (simp add: fetch_def purge_cache_queue_def)

subsection \<open>A run over well-formed pages\<close>

lemma fit_Nil [simp]: "fit e [] ts = (ts = [])"
  by (auto simp: fit_def)

lemma fit_Cons:
  "fit e (bug # bugs) ts =
     (\<exists>t ts'. ts = t # ts' \<and> \<not> isl (assemble e bug t) \<and> fit e bugs ts')"
  by (cases ts) (auto simp: fit_def)

lemma assembled_Cons [simp]:
  "assembled e (bug # bugs) (t # ts) = projr (assemble e bug t) # assembled e bugs ts"
  by (simp add: assembled_def)

lemma assembled_Nil [simp]: "assembled e [] ts = []"
  by (simp add: assembled_def)

lemma call_ok:
  assumes "script s = r # rest" and "ok_reply r"
  shows "\<exists>s'. call c res ps s = (Inr (body r), s') \<and> cache s' = cache s
           \<and> cache_queue s' = cache_queue s \<and> script s' = rest"
  using assms by (cases r) (auto simp: call_def requests_get_def Let_def)

lemma call_bad:
  assumes "script s = Reply status x # rest" and "raise_for_status status = Some err"
  shows "\<exists>s'. call c res ps s = (Inl err, s') \<and> cache s' = cache s
           \<and> cache_queue s' = cache_queue s \<and> script s' = rest"
  using assms by (auto simp: call_def requests_get_def Let_def)

lemma call_Inr:
  assumes "call c res ps s = (Inr x, s')"
  shows "\<exists>r. ok_reply r \<and> body r = x \<and> script s = r # script s'"
  using assms
  by (auto simp: call_def requests_get_def Let_def
      split: list.splits reply.splits option.splits)

lemma fetch_and_parse_comments_eq:
  "fetch_and_parse_comments e b bug_id s =
     (case call (client b) (urljoin e [JStr ''bug'', bug_id, JStr ''comment'']) [] s of
        (Inl err, s1) \<Rightarrow> (Inl err, s1)
      | (Inr raw, s1) \<Rightarrow> (parse_comments e bug_id raw, push_cache_queue raw s1))"
  by (simp add: fetch_and_parse_comments_def client_comments_def parse_comments_def Let_def
      split: prod.splits sum.splits)

lemma fetch_and_parse_history_eq:
  "fetch_and_parse_history e b bug_id s =
     (case call (client b) (urljoin e [JStr ''bug'', bug_id, JStr ''history'']) [] s of
        (Inl err, s1) \<Rightarrow> (Inl err, s1)
      | (Inr raw, s1) \<Rightarrow> (parse_history e raw, push_cache_queue raw s1))"
  by (simp add: fetch_and_parse_history_def client_history_def parse_history_def Let_def
      split: prod.splits sum.splits)

lemma fetch_and_parse_attachments_eq:
  "fetch_and_parse_attachments e b bug_id s =
     (case call (client b) (urljoin e [JStr ''bug'', bug_id, JStr ''attachment''])
             [(''exclude_fields'', JStr ''data'')] s of
        (Inl err, s1) \<Rightarrow> (Inl err, s1)
      | (Inr raw, s1) \<Rightarrow> (parse_attachments e bug_id raw, push_cache_queue raw s1))"
  by (simp add: fetch_and_parse_attachments_def client_attachments_def parse_attachments_def
      Let_def split: prod.splits sum.splits)

text \<open>One bug of a page, the three sub-fetches answered.\<close>

lemma fetch_page_bugs_step:
  assumes "\<not> isl (assemble e bug (rc, rh, ra))"
    and "script s = r1 # r2 # r3 # rest"
    and "ok_reply r1" "ok_reply r2" "ok_reply r3"
    and "body r1 = rc" "body r2 = rh" "body r3 = ra"
  shows "\<exists>s3. fetch_page_bugs e b (bug # bugs) s =
           (case fetch_page_bugs e b bugs s3 of
              (ys, out, s4) \<Rightarrow> (projr (assemble e bug (rc, rh, ra)) # ys, out, s4))
         \<and> cache s3 = cache s \<and> cache_queue s3 = cache_queue s @ [rc, rh, ra]
         \<and> script s3 = rest"
proof -
  from assms(1) obtain bug3 where "assemble e bug (rc, rh, ra) = Inr bug3"
    by (cases "assemble e bug (rc, rh, ra)") auto
  then obtain bug_id comments bug1 history bug2 attachments where
    a: "get_key bug ''id'' = Inr bug_id" "parse_comments e bug_id rc = Inr comments"
      "set_key bug ''comments'' comments = Inr bug1" "parse_history e rh = Inr history"
      "set_key bug1 ''history'' history = Inr bug2"
      "parse_attachments e bug_id ra = Inr attachments"
      "set_key bug2 ''attachments'' attachments = Inr bug3"
      "assemble e bug (rc, rh, ra) = Inr bug3"
    by (auto simp: ebind_def split: sum.splits)
  from call_ok [OF assms(2) assms(3)] assms(6) obtain s1 where
    1: "call (client b) (urljoin e [JStr ''bug'', bug_id, JStr ''comment'']) [] s = (Inr rc, s1)"
      "cache s1 = cache s" "cache_queue s1 = cache_queue s" "script s1 = r2 # r3 # rest"
    by blast
  let ?s1 = "push_cache_queue rc s1"
  have q1: "script ?s1 = r2 # r3 # rest" using 1 by simp
  from call_ok [OF q1 assms(4)] assms(7) obtain s2 where
    2: "call (client b) (urljoin e [JStr ''bug'', bug_id, JStr ''history'']) [] ?s1 = (Inr rh, s2)"
      "cache s2 = cache ?s1" "cache_queue s2 = cache_queue ?s1" "script s2 = r3 # rest"
    by blast
  let ?s2 = "push_cache_queue rh s2"
  have q2: "script ?s2 = r3 # rest" using 2 by simp
  from call_ok [OF q2 assms(5)] assms(8) obtain s3 where
    3: "call (client b) (urljoin e [JStr ''bug'', bug_id, JStr ''attachment''])
          [(''exclude_fields'', JStr ''data'')] ?s2 = (Inr ra, s3)"
      "cache s3 = cache ?s2" "cache_queue s3 = cache_queue ?s2" "script s3 = rest"
    by blast
  let ?s3 = "push_cache_queue ra s3"
  have "fetch_page_bugs e b (bug # bugs) s =
           (case fetch_page_bugs e b bugs ?s3 of
              (ys, out, s4) \<Rightarrow> (projr (assemble e bug (rc, rh, ra)) # ys, out, s4))"
    using a 1(1) 2(1) 3(1)
    by (simp add: fetch_and_parse_comments_eq fetch_and_parse_history_eq
        fetch_and_parse_attachments_eq)
  moreover have "cache ?s3 = cache s" "cache_queue ?s3 = cache_queue s @ [rc, rh, ra]"
    "script ?s3 = rest"
    using 1 2 3 by (simp_all add: push_cache_queue_def)
  ultimately show ?thesis by blast
qed

lemma fetch_page_bugs_ok:
  assumes "fit e bugs ts" and "list_all ok_reply rs"
    and "map body rs = concat (map triple_entries ts)" and "script s = rs @ rest"
  shows "\<exists>s'. fetch_page_bugs e b bugs s = (assembled e bugs ts, None, s')
           \<and> cache s' = cache s
           \<and> cache_queue s' = cache_queue s @ concat (map triple_entries ts)
           \<and> script s' = rest"
  using assms
proof (induction bugs arbitrary: ts rs s)
  case Nil
  then show ?case by simp
next
  case (Cons bug bugs)
  from Cons.prems(1) obtain rc rh ra ts' where
    ts: "ts = (rc, rh, ra) # ts'" "\<not> isl (assemble e bug (rc, rh, ra))" "fit e bugs ts'"
    by (auto simp: fit_Cons)
  from Cons.prems(3) ts(1) obtain r1 r2 r3 rs' where
    rs: "rs = r1 # r2 # r3 # rs'" "body r1 = rc" "body r2 = rh" "body r3 = ra"
      "map body rs' = concat (map triple_entries ts')"
    by (auto simp: map_eq_Cons_conv)
  from Cons.prems(2) rs(1) have ok: "ok_reply r1" "ok_reply r2" "ok_reply r3" "list_all ok_reply rs'"
    by simp_all
  from Cons.prems(4) rs(1) have sc: "script s = r1 # r2 # r3 # (rs' @ rest)"
    by simp
  from fetch_page_bugs_step [OF ts(2) sc ok(1-3) rs(2-4), of b bugs] obtain s3 where
    s3: "fetch_page_bugs e b (bug # bugs) s =
           (case fetch_page_bugs e b bugs s3 of
              (ys, out, s4) \<Rightarrow> (projr (assemble e bug (rc, rh, ra)) # ys, out, s4))"
      "cache s3 = cache s" "cache_queue s3 = cache_queue s @ [rc, rh, ra]"
      "script s3 = rs' @ rest"
    by blast
  from Cons.IH [OF ts(3) ok(4) rs(5) s3(4)] obtain s' where
    "fetch_page_bugs e b bugs s3 = (assembled e bugs ts', None, s')"
    "cache s' = cache s3" "cache_queue s' = cache_queue s3 @ concat (map triple_entries ts')"
    "script s' = rest"
    by blast
  with s3 ts(1) show ?case by simp
qed

lemma py_len_iter: "py_iter bl = Inr bugs \<Longrightarrow> py_len bl = Inr (length bugs)"
  by (cases bl) auto

lemma py_iter_len: "py_len bl = Inr n \<Longrightarrow> \<exists>bugs. py_iter bl = Inr bugs \<and> length bugs = n"
  by (cases bl) auto

lemma page_bugs_Inr:
  "page_bugs e raw = Inr bugs \<longleftrightarrow>
     (\<exists>data bl. json_loads e raw = Inr data \<and> get_key data ''bugs'' = Inr bl
        \<and> py_iter bl = Inr bugs)"
  by (auto simp: page_bugs_def ebind_def split: sum.splits)

lemma client_bugs_ok:
  assumes "script s = r # rest" and "ok_reply r"
  shows "\<exists>s'. client_bugs e c d off lm s = (Inr (body r), s') \<and> cache s' = cache s
           \<and> cache_queue s' = cache_queue s \<and> script s' = rest"
  unfolding client_bugs_def Let_def by (rule call_ok [OF assms])

lemma client_bugs_bad:
  assumes "script s = Reply status x # rest" and "raise_for_status status = Some err"
  shows "\<exists>s'. client_bugs e c d off lm s = (Inl err, s') \<and> cache s' = cache s
           \<and> cache_queue s' = cache_queue s \<and> script s' = rest"
  unfolding client_bugs_def Let_def by (rule call_bad [OF assms])

lemma client_bugs_Inr:
  assumes "client_bugs e c d off lm s = (Inr x, s')"
  shows "\<exists>r. ok_reply r \<and> body r = x \<and> script s = r # script s'"
  using assms unfolding client_bugs_def Let_def by (rule call_Inr)

text \<open>One turn of the loop on a page with bugs.\<close>

lemma fetch_bugs_turn_ok:
  assumes "well_formed e (raw, ts)" and "script s = r # rs @ rest"
    and "ok_reply r" and "body r = raw"
    and "list_all ok_reply rs" and "map body rs = concat (map triple_entries ts)"
  shows "\<exists>s2. fetch_bugs e b d off s =
           (case fetch_bugs e b d (off + max_bugs b) (flush_cache_queue s2) of
              (zs, out, s3) \<Rightarrow> (page_yield e (raw, ts) @ zs, out, s3))
         \<and> cache s2 = cache s \<and> cache_queue s2 = cache_queue s @ page_entries (raw, ts)
         \<and> script s2 = rest"
proof -
  from assms(1) obtain bugs where
    bugs: "page_bugs e raw = Inr bugs" "bugs \<noteq> []" "fit e bugs ts"
    by (auto split: sum.splits)
  then obtain data bl where
    d: "json_loads e raw = Inr data" "get_key data ''bugs'' = Inr bl" "py_iter bl = Inr bugs"
    by (auto simp: page_bugs_Inr)
  have len: "py_len bl = Inr (length bugs)"
    by (rule py_len_iter [OF d(3)])
  from client_bugs_ok [OF assms(2) assms(3), of e "client b" d off "max_bugs b"] assms(4)
  obtain s1 where
    s1: "client_bugs e (client b) d off (max_bugs b) s = (Inr raw, s1)"
      "cache s1 = cache s" "cache_queue s1 = cache_queue s" "script s1 = rs @ rest"
    by blast
  let ?s1 = "push_cache_queue raw s1"
  have sc: "script ?s1 = rs @ rest" using s1 by simp
  from fetch_page_bugs_ok [OF bugs(3) assms(5) assms(6) sc, of b] obtain s2 where
    s2: "fetch_page_bugs e b bugs ?s1 = (assembled e bugs ts, None, s2)"
      "cache s2 = cache ?s1"
      "cache_queue s2 = cache_queue ?s1 @ concat (map triple_entries ts)"
      "script s2 = rest"
    by blast
  have "fetch_bugs e b d off s =
           (case fetch_bugs e b d (off + max_bugs b) (flush_cache_queue s2) of
              (zs, out, s3) \<Rightarrow> (page_yield e (raw, ts) @ zs, out, s3))"
    using s1(1) d len bugs(1,2) s2(1)
    by (subst fetch_bugs.simps) simp
  moreover have "cache s2 = cache s" "cache_queue s2 = cache_queue s @ page_entries (raw, ts)"
    using s1 s2 by (simp_all add: push_cache_queue_def)
  ultimately show ?thesis using s2(4) by blast
qed

lemma fetch_bugs_last:
  assumes "empty_page e lastp" and "script s = r # rest" and "ok_reply r" and "body r = lastp"
  shows "\<exists>s'. fetch_bugs e b d off s = ([], None, s') \<and> cache s' = cache s
           \<and> cache_queue s' = cache_queue s @ [lastp] \<and> script s' = rest"
proof -
  from assms(1) obtain data bl where
    d: "json_loads e lastp = Inr data" "get_key data ''bugs'' = Inr bl" "py_iter bl = Inr []"
    by (auto simp: empty_page_def page_bugs_Inr)
  have len: "py_len bl = Inr 0"
    using py_len_iter [OF d(3)] by simp
  from client_bugs_ok [OF assms(2) assms(3), of e "client b" d off "max_bugs b"] assms(4)
  obtain s1 where
    s1: "client_bugs e (client b) d off (max_bugs b) s = (Inr lastp, s1)"
      "cache s1 = cache s" "cache_queue s1 = cache_queue s" "script s1 = rest"
    by blast
  have "fetch_bugs e b d off s = ([], None, push_cache_queue lastp s1)"
    using s1(1) d len by (subst fetch_bugs.simps) simp
  then show ?thesis
    using s1 by (simp add: push_cache_queue_def)
qed

lemma map_body_append:
  "map body rs = xs @ ys \<Longrightarrow> \<exists>rs1 rs2. rs = rs1 @ rs2 \<and> map body rs1 = xs \<and> map body rs2 = ys"
  by (auto simp: map_eq_append_conv)

lemma fetch_bugs_pages:
  assumes "list_all (well_formed e) pages" and "empty_page e lastp"
    and "list_all ok_reply rs"
    and "map body rs = concat (map page_entries pages) @ [lastp]"
    and "script s = rs @ rest"
  shows "\<exists>s'. fetch_bugs e b d off s = (concat (map (page_yield e) pages), None, s')
           \<and> script s' = rest
           \<and> (\<forall>c. cache s = Some c \<and> cache_queue s = [] \<longrightarrow>
                 cache s' = Some (c @ concat (map page_entries pages))
                 \<and> cache_queue s' = [lastp])"
  using assms(1,3,4,5)
proof (induction pages arbitrary: rs s off)
  case Nil
  then obtain r where r: "rs = [r]" "body r = lastp" "ok_reply r"
    by (auto simp: map_eq_Cons_conv)
  with Nil have "script s = r # rest" by simp
  from fetch_bugs_last [OF assms(2) this r(3) r(2), of b d off] show ?case
    by auto
next
  case (Cons p pages)
  obtain raw ts where p: "p = (raw, ts)" by (cases p)
  from Cons.prems(3) p obtain r rs' where
    r: "rs = r # rs'" "body r = raw"
      "map body rs' = concat (map triple_entries ts) @ (concat (map page_entries pages) @ [lastp])"
    by (auto simp: map_eq_Cons_conv)
  from map_body_append [OF r(3)] r(1,2) obtain rs1 rs2 where
    rs: "rs = r # rs1 @ rs2" "body r = raw" "map body rs1 = concat (map triple_entries ts)"
      "map body rs2 = concat (map page_entries pages) @ [lastp]"
    by blast
  from Cons.prems(2) rs(1) have ok: "ok_reply r" "list_all ok_reply rs1" "list_all ok_reply rs2"
    by simp_all
  from Cons.prems(1) p have wf: "well_formed e (raw, ts)" "list_all (well_formed e) pages"
    by simp_all
  from Cons.prems(4) rs(1) have sc: "script s = r # rs1 @ (rs2 @ rest)"
    by simp
  from fetch_bugs_turn_ok [OF wf(1) sc ok(1) rs(2) ok(2) rs(3), of b d off] obtain s2 where
    s2: "fetch_bugs e b d off s =
           (case fetch_bugs e b d (off + max_bugs b) (flush_cache_queue s2) of
              (zs, out, s3) \<Rightarrow> (page_yield e (raw, ts) @ zs, out, s3))"
      "cache s2 = cache s" "cache_queue s2 = cache_queue s @ page_entries (raw, ts)"
      "script s2 = rs2 @ rest"
    by blast
  have sc2: "script (flush_cache_queue s2) = rs2 @ rest"
    using s2(4) by simp
  from Cons.IH [OF wf(2) ok(3) rs(4) sc2, of "off + max_bugs b"] obtain s' where
    s': "fetch_bugs e b d (off + max_bugs b) (flush_cache_queue s2)
           = (concat (map (page_yield e) pages), None, s')"
      "script s' = rest"
      "\<forall>c. cache (flush_cache_queue s2) = Some c \<and> cache_queue (flush_cache_queue s2) = [] \<longrightarrow>
             cache s' = Some (c @ concat (map page_entries pages)) \<and> cache_queue s' = [lastp]"
    by blast
  have "cache s' = Some (c @ concat (map page_entries (p # pages))) \<and> cache_queue s' = [lastp]"
    if "cache s = Some c" "cache_queue s = []" for c
  proof -
    from that s2(2,3) have "cache (flush_cache_queue s2) = Some (c @ page_entries (raw, ts))"
      "cache_queue (flush_cache_queue s2) = []"
      by (simp_all add: flush_cache_queue_def)
    with s'(3) p show ?thesis by simp
  qed
  with s2(1) s'(1,2) p show ?case by simp
qed

lemma length_assembled: "fit e bugs ts \<Longrightarrow> length (assembled e bugs ts) = length bugs"
  by (simp add: assembled_def fit_def)

lemma length_page_yield: "well_formed e p \<Longrightarrow> length (page_yield e p) = page_count e p"
  by (cases p) (auto simp: page_count_def length_assembled split: sum.splits)

lemma length_yields:
  "list_all (well_formed e) pages \<Longrightarrow>
     length (concat (map (page_yield e) pages)) = sum_list (map (page_count e) pages)"
  by (induction pages) (simp_all add: length_page_yield)

text \<open>
  C4: when the server sends any number of well-formed pages (each with at least one
  bug, every sub-fetch answered) and then a page with zero bugs, \<^verbatim>\<open>fetch\<close>
  yields the assembled bugs of all the pages, in order and each once, so as many as
  the pages hold bugs; it then ends without an exception and without a further call
  (the replies after the empty page are left unread).
\<close>

theorem pagination_termination:
  assumes "list_all (well_formed e) pages" and "empty_page e lastp"
    and "list_all ok_reply rs"
    and "map body rs = concat (map page_entries pages) @ [lastp]"
    and "script s = rs @ rest"
  shows "yielded (fetch e b from_date s) = concat (map (page_yield e) pages)
         \<and> length (yielded (fetch e b from_date s)) = sum_list (map (page_count e) pages)
         \<and> raised (fetch e b from_date s) = None
         \<and> script (final (fetch e b from_date s)) = rest"
proof -
  let ?d = "case from_date of None \<Rightarrow> DEFAULT_DATETIME e | Some d \<Rightarrow> d"
  have sc: "script (purge_cache_queue s) = rs @ rest"
    using assms(5) by (simp add: purge_cache_queue_def)
  from fetch_bugs_pages [OF assms(1-4) sc, of b ?d 0] obtain s' where
    "fetch e b from_date s = (concat (map (page_yield e) pages), None, s')" "script s' = rest"
    by (auto simp: fetch_def)
  then show ?thesis
    using length_yields [OF assms(1)] by (simp add: yielded_def raised_def final_def)
qed

lemma ex_pages_well_formed: "list_all (well_formed ex_env) ex_pages"
  by (simp add: ex_pages_def page_bugs_def json_loads_def ex_env_def ex_loads_def ebind_def
      fit_def parse_comments_def parse_history_def parse_attachments_def
      ex_page_def ex_comments_def ex_history_def ex_attachments_def ex_empty_page_def
      str_int_def dec_nat.simps digit_chars_def)

lemma ex_pages_yield: "concat (map (page_yield ex_env) ex_pages) = [ex_bug]"
  by (simp add: ex_pages_def page_bugs_def json_loads_def ex_env_def ex_loads_def ebind_def
      ex_bug_def parse_comments_def parse_history_def parse_attachments_def
      ex_page_def ex_comments_def ex_history_def ex_attachments_def ex_empty_page_def
      str_int_def dec_nat.simps digit_chars_def)

lemma ex_empty_page_empty: "empty_page ex_env ex_empty_page"
  by (simp add: empty_page_def page_bugs_def json_loads_def ex_env_def ex_loads_def ebind_def)

theorem pagination_termination_witness:
  "yielded (fetch ex_env ex_backend None (ex_state (ex_replies @ [NoReply]))) = [ex_bug]
   \<and> length (yielded (fetch ex_env ex_backend None (ex_state (ex_replies @ [NoReply])))) = 1
   \<and> raised (fetch ex_env ex_backend None (ex_state (ex_replies @ [NoReply]))) = None
   \<and> script (final (fetch ex_env ex_backend None (ex_state (ex_replies @ [NoReply])))) = [NoReply]"
proof -
  have 3: "list_all ok_reply ex_replies"
    by (simp add: ex_replies_def raise_for_status_def)
  have 4: "map body ex_replies = concat (map page_entries ex_pages) @ [ex_empty_page]"
    by (simp add: ex_replies_def ex_pages_def)
  have 5: "script (ex_state (ex_replies @ [NoReply])) = ex_replies @ [NoReply]"
    by (simp add: ex_state_def)
  have 6: "sum_list (map (page_count ex_env) ex_pages) = 1"
    using length_yields [OF ex_pages_well_formed] by (simp add: ex_pages_yield)
  show ?thesis
    using pagination_termination [OF ex_pages_well_formed ex_empty_page_empty 3 4 5,
        of ex_backend None]
    by (simp add: ex_pages_yield 6)
qed

subsection \<open>Replay of well-formed pages\<close>

lemma isl_InrE: "\<not> isl x \<Longrightarrow> \<exists>y. x = Inr y"
  by (cases x) auto

lemma cached_page_bugs_step:
  assumes "\<not> isl (assemble e bug (rc, rh, ra))"
  shows "cached_page_bugs e (bug # bugs) (rc # rh # ra # items) =
           (case cached_page_bugs e bugs items of
              (ys, r) \<Rightarrow> (projr (assemble e bug (rc, rh, ra)) # ys, r))"
proof -
  from isl_InrE [OF assms] obtain bug3 where b3: "assemble e bug (rc, rh, ra) = Inr bug3"
    by blast
  then obtain bug_id comments bug1 history bug2 attachments where
    a: "get_key bug ''id'' = Inr bug_id" "parse_comments e bug_id rc = Inr comments"
      "set_key bug ''comments'' comments = Inr bug1" "parse_history e rh = Inr history"
      "set_key bug1 ''history'' history = Inr bug2"
      "parse_attachments e bug_id ra = Inr attachments"
      "set_key bug2 ''attachments'' attachments = Inr bug3"
    by (auto simp: ebind_def split: sum.splits)
  from a(2) obtain cdata where
    c: "json_loads e rc = Inr cdata"
      "ebind (ebind (get_key cdata ''bugs'') (\<lambda>x. get_key x (py_str (repr e) bug_id)))
         (\<lambda>y. get_key y ''comments'') = Inr comments"
    by (auto simp: parse_comments_def ebind_def split: sum.splits)
  from a(4) obtain hdata where
    h: "json_loads e rh = Inr hdata"
      "ebind (ebind (get_key hdata ''bugs'') (\<lambda>x. get_first x))
         (\<lambda>y. get_key y ''history'') = Inr history"
    by (auto simp: parse_history_def ebind_def split: sum.splits)
  from a(6) obtain adata where
    at: "json_loads e ra = Inr adata"
      "ebind (get_key adata ''bugs'') (\<lambda>x. get_key x (py_str (repr e) bug_id)) = Inr attachments"
    by (auto simp: parse_attachments_def ebind_def split: sum.splits)
  let ?f = "\<lambda>(raw, rest). ebind (json_loads e raw) (\<lambda>v. Inr (v, rest))"
  have n1: "ebind (py_next (rc # rh # ra # items)) ?f = Inr (cdata, rh # ra # items)"
    using c(1) by (simp add: py_next_def ebind_def)
  have n2: "ebind (py_next (rh # ra # items)) ?f = Inr (hdata, ra # items)"
    using h(1) by (simp add: py_next_def ebind_def)
  have n3: "ebind (py_next (ra # items)) ?f = Inr (adata, items)"
    using at(1) by (simp add: py_next_def ebind_def)
  show ?thesis
    using a(1,3,5,7) c(2) h(2) at(2) b3
    by (simp add: n1 n2 n3)
qed

lemma cached_page_bugs_ok:
  "fit e bugs ts \<Longrightarrow>
     cached_page_bugs e bugs (concat (map triple_entries ts) @ items) = (assembled e bugs ts, Inr items)"
proof (induction bugs arbitrary: ts)
  case Nil
  then show ?case by simp
next
  case (Cons bug bugs)
  from Cons.prems obtain rc rh ra ts' where
    ts: "ts = (rc, rh, ra) # ts'" "\<not> isl (assemble e bug (rc, rh, ra))" "fit e bugs ts'"
    by (auto simp: fit_Cons)
  show ?case
    using cached_page_bugs_step [OF ts(2), of bugs "concat (map triple_entries ts') @ items"]
      Cons.IH [OF ts(3)] ts(1)
    by simp
qed

lemma cached_bugs_page:
  assumes "well_formed e p"
  shows "cached_bugs e (page_entries p @ items) =
           (case cached_bugs e items of (zs, out) \<Rightarrow> (page_yield e p @ zs, out))"
proof -
  obtain raw ts where p: "p = (raw, ts)" by (cases p)
  with assms obtain bugs where
    bugs: "page_bugs e raw = Inr bugs" "fit e bugs ts"
    by (auto split: sum.splits)
  then obtain data where
    d: "json_loads e raw = Inr data" "ebind (get_key data ''bugs'') py_iter = Inr bugs"
    by (auto simp: page_bugs_def ebind_def split: sum.splits)
  show ?thesis
    using p bugs d cached_page_bugs_ok [OF bugs(2), of items]
    by (subst cached_bugs.simps) simp
qed

lemma cached_bugs_pages:
  "list_all (well_formed e) pages \<Longrightarrow>
     cached_bugs e (concat (map page_entries pages) @ items) =
       (case cached_bugs e items of (zs, out) \<Rightarrow> (concat (map (page_yield e) pages) @ zs, out))"
proof (induction pages)
  case Nil
  then show ?case by simp
next
  case (Cons p pages)
  then show ?case
    by (simp add: cached_bugs_page split: prod.splits)
qed

lemma cached_bugs_Nil: "cached_bugs e [] = ([], None)"
  by (subst cached_bugs.simps) simp

subsection \<open>Runs that end normally\<close>

text \<open>Every page loop that ends normally was answered in full.\<close>

lemma fetch_page_bugs_None:
  "fetch_page_bugs e b bugs s = (ys, None, s') \<Longrightarrow>
     \<exists>ts rs. fit e bugs ts \<and> list_all ok_reply rs
       \<and> map body rs = concat (map triple_entries ts) \<and> script s = rs @ script s'"
proof (induction bugs arbitrary: s ys)
  case Nil
  then show ?case by simp
next
  case (Cons bug bugs)
  from Cons.prems obtain bug_id rc s1 comments bug1 rh s2 history bug2 ra s3 attachments bug3 ys'
    where
      a: "get_key bug ''id'' = Inr bug_id"
        "call (client b) (urljoin e [JStr ''bug'', bug_id, JStr ''comment'']) [] s = (Inr rc, s1)"
        "parse_comments e bug_id rc = Inr comments"
        "set_key bug ''comments'' comments = Inr bug1"
        "call (client b) (urljoin e [JStr ''bug'', bug_id, JStr ''history'']) []
           (push_cache_queue rc s1) = (Inr rh, s2)"
        "parse_history e rh = Inr history"
        "set_key bug1 ''history'' history = Inr bug2"
        "call (client b) (urljoin e [JStr ''bug'', bug_id, JStr ''attachment''])
           [(''exclude_fields'', JStr ''data'')] (push_cache_queue rh s2) = (Inr ra, s3)"
        "parse_attachments e bug_id ra = Inr attachments"
        "set_key bug2 ''attachments'' attachments = Inr bug3"
        "fetch_page_bugs e b bugs (push_cache_queue ra s3) = (ys', None, s')"
    by (auto simp: fetch_and_parse_comments_eq fetch_and_parse_history_eq
        fetch_and_parse_attachments_eq split: sum.splits prod.splits)
  from call_Inr [OF a(2)] obtain r1 where r1: "ok_reply r1" "body r1 = rc" "script s = r1 # script s1"
    by blast
  from call_Inr [OF a(5)] obtain r2 where r2: "ok_reply r2" "body r2 = rh" "script s1 = r2 # script s2"
    by auto
  from call_Inr [OF a(8)] obtain r3 where r3: "ok_reply r3" "body r3 = ra" "script s2 = r3 # script s3"
    by auto
  from Cons.IH [OF a(11)] obtain ts rs where
    ih: "fit e bugs ts" "list_all ok_reply rs" "map body rs = concat (map triple_entries ts)"
      "script s3 = rs @ script s'"
    by auto
  have "assemble e bug (rc, rh, ra) = Inr bug3"
    using a by (simp add: ebind_def)
  then have "fit e (bug # bugs) ((rc, rh, ra) # ts)"
    using ih(1) by (simp add: fit_Cons)
  moreover have "list_all ok_reply (r1 # r2 # r3 # rs)"
    using r1 r2 r3 ih(2) by simp
  moreover have "map body (r1 # r2 # r3 # rs) = concat (map triple_entries ((rc, rh, ra) # ts))"
    using r1 r2 r3 ih(3) by simp
  moreover have "script s = (r1 # r2 # r3 # rs) @ script s'"
    using r1 r2 r3 ih(4) by simp
  ultimately show ?case by blast
qed


text \<open>Every run of the loop that ends normally went over well-formed pages and
  stopped at an empty one.\<close>

lemma fetch_bugs_None:
  "fetch_bugs e b d off s = (ys, None, s') \<Longrightarrow>
     \<exists>pages lastp rs. list_all (well_formed e) pages \<and> empty_page e lastp
       \<and> list_all ok_reply rs
       \<and> map body rs = concat (map page_entries pages) @ [lastp]
       \<and> script s = rs @ script s'"
proof (induction "length (script s)" arbitrary: s off ys rule: less_induct)
  case less
  from less.prems obtain raw s1 data bl n where
    a: "client_bugs e (client b) d off (max_bugs b) s = (Inr raw, s1)"
      "json_loads e raw = Inr data" "get_key data ''bugs'' = Inr bl" "py_len bl = Inr n"
    by (subst (asm) fetch_bugs.simps) (auto split: sum.splits prod.splits)
  from client_bugs_Inr [OF a(1)] obtain r where
    r: "ok_reply r" "body r = raw" "script s = r # script s1"
    by blast
  from py_iter_len [OF a(4)] obtain bugs where
    bugs: "py_iter bl = Inr bugs" "length bugs = n"
    by blast
  have pb: "page_bugs e raw = Inr bugs"
    using a(2,3) bugs(1) by (auto simp: page_bugs_Inr)
  show ?case
  proof (cases "n = 0")
    case True
    with less.prems a have "s' = push_cache_queue raw s1"
      by (subst (asm) fetch_bugs.simps) simp
    moreover have "empty_page e raw"
      using pb bugs(2) True by (simp add: empty_page_def)
    ultimately have "list_all (well_formed e) [] \<and> empty_page e raw \<and> list_all ok_reply [r]
       \<and> map body [r] = concat (map page_entries []) @ [raw] \<and> script s = [r] @ script s'"
      using r by simp
    then show ?thesis by blast
  next
    case False
    with less.prems a bugs(1) obtain ys1 s2 zs where
      c: "fetch_page_bugs e b bugs (push_cache_queue raw s1) = (ys1, None, s2)"
        "fetch_bugs e b d (off + max_bugs b) (flush_cache_queue s2) = (zs, None, s')"
      by (subst (asm) fetch_bugs.simps) (auto split: sum.splits prod.splits option.splits)
    from fetch_page_bugs_None [OF c(1)] obtain ts rs1 where
      p: "fit e bugs ts" "list_all ok_reply rs1" "map body rs1 = concat (map triple_entries ts)"
        "script s1 = rs1 @ script s2"
      by auto
    have "length (script (flush_cache_queue s2)) < length (script s)"
      using r(3) p(4) by simp
    from less.hyps [OF this c(2)] obtain pages lastp rs2 where
      ih: "list_all (well_formed e) pages" "empty_page e lastp" "list_all ok_reply rs2"
        "map body rs2 = concat (map page_entries pages) @ [lastp]"
        "script s2 = rs2 @ script s'"
      by auto
    have "well_formed e (raw, ts)"
      using pb p(1) bugs(2) False by auto
    then have "list_all (well_formed e) ((raw, ts) # pages) \<and> empty_page e lastp
       \<and> list_all ok_reply (r # rs1 @ rs2)
       \<and> map body (r # rs1 @ rs2) = concat (map page_entries ((raw, ts) # pages)) @ [lastp]
       \<and> script s = (r # rs1 @ rs2) @ script s'"
      using ih r p by simp
    then show ?thesis by blast
  qed
qed

lemma length_fit: "fit e bugs ts \<Longrightarrow> length (concat (map triple_entries ts)) = 3 * length bugs"
proof (induction bugs arbitrary: ts)
  case Nil
  then show ?case by simp
next
  case (Cons bug bugs)
  then show ?case by (auto simp: fit_Cons)
qed

lemma length_page_entries:
  "well_formed e p \<Longrightarrow> length (page_entries p) = 1 + 3 * page_count e p"
  by (cases p) (auto simp: page_count_def length_fit split: sum.splits)

lemma length_pages_entries:
  "list_all (well_formed e) pages \<Longrightarrow>
     length (concat (map page_entries pages))
       = length pages + 3 * sum_list (map (page_count e) pages)"
proof (induction pages)
  case Nil
  then show ?case by simp
next
  case (Cons p pages)
  then have "well_formed e p" "list_all (well_formed e) pages"
    by simp_all
  with Cons.IH length_page_entries [of e p] show ?case
    by simp
qed

lemma fetch_completed:
  assumes "fetch e b from_date s = (ys, None, s')" and "cache s = Some c"
  shows "\<exists>pages lastp rs.
           list_all (well_formed e) pages \<and> empty_page e lastp
           \<and> script s = rs @ script s' \<and> list_all ok_reply rs
           \<and> map body rs = concat (map page_entries pages) @ [lastp]
           \<and> cache s' = Some (c @ concat (map page_entries pages))
           \<and> cache_queue s' = [lastp]
           \<and> length (concat (map page_entries pages))
               = length pages + 3 * sum_list (map (page_count e) pages)
           \<and> ys = concat (map (page_yield e) pages)"
proof -
  let ?d = "case from_date of None \<Rightarrow> DEFAULT_DATETIME e | Some d \<Rightarrow> d"
  let ?s = "purge_cache_queue s"
  have run: "fetch_bugs e b ?d 0 ?s = (ys, None, s')"
    using assms(1) by (simp add: fetch_def)
  from fetch_bugs_None [OF run] obtain pages lastp rs where
    p: "list_all (well_formed e) pages" "empty_page e lastp" "list_all ok_reply rs"
      "map body rs = concat (map page_entries pages) @ [lastp]"
      "script ?s = rs @ script s'"
    by blast
  from fetch_bugs_pages [OF p, of b ?d 0] run assms(2)
  have "ys = concat (map (page_yield e) pages)"
    "cache s' = Some (c @ concat (map page_entries pages))" "cache_queue s' = [lastp]"
    by (auto simp: purge_cache_queue_def)
  moreover have "script s = rs @ script s'"
    using p(5) by (simp add: purge_cache_queue_def)
  ultimately show ?thesis
    using p(1-4) length_pages_entries [OF p(1)] by blast
qed

lemma ex_run:
  "fetch ex_env ex_backend None (ex_state ex_replies)
     = ([ex_bug], None, final (fetch ex_env ex_backend None (ex_state ex_replies)))"
proof -
  have 3: "list_all ok_reply ex_replies"
    by (simp add: ex_replies_def raise_for_status_def)
  have 4: "map body ex_replies = concat (map page_entries ex_pages) @ [ex_empty_page]"
    by (simp add: ex_replies_def ex_pages_def)
  have 5: "script (purge_cache_queue (ex_state ex_replies)) = ex_replies @ []"
    by (simp add: ex_state_def purge_cache_queue_def)
  from fetch_bugs_pages [OF ex_pages_well_formed ex_empty_page_empty 3 4 5,
      of ex_backend "DEFAULT_DATETIME ex_env" 0]
  show ?thesis
    by (auto simp: fetch_def final_def ex_pages_yield)
qed

text \<open>
  C2: every run of \<^verbatim>\<open>fetch\<close> that ends normally, started with committed
  content \<open>c\<close>, went over some pages \<open>pages\<close>, each with at least one bug and every
  sub-fetch answered, and stopped at a page \<open>lastp\<close> with zero bugs. The replies it
  read are, in order, the page text of each page followed by the comments, history and
  attachments texts of each of its bugs, and then \<open>lastp\<close>. The committed content is
  \<open>c\<close> followed by exactly these texts in this order, without \<open>lastp\<close>, which stays
  in the queue; the new part has \<open>P + 3 * sum n\<^sub>i\<close> entries for \<open>P\<close> pages with
  \<open>n\<^sub>i\<close> bugs each.
\<close>

theorem cache_shape:
  assumes "fetch e b from_date s = (ys, None, s')" and "cache s = Some c"
  shows "\<exists>pages lastp rs.
           list_all (well_formed e) pages \<and> empty_page e lastp
           \<and> script s = rs @ script s' \<and> list_all ok_reply rs
           \<and> map body rs = concat (map page_entries pages) @ [lastp]
           \<and> cache s' = Some (c @ concat (map page_entries pages))
           \<and> cache_queue s' = [lastp]
           \<and> length (concat (map page_entries pages))
               = length pages + 3 * sum_list (map (page_count e) pages)
           \<and> ys = concat (map (page_yield e) pages)"
  using assms by (rule fetch_completed)

theorem cache_shape_witness:
  "\<exists>pages lastp rs.
     list_all (well_formed ex_env) pages \<and> empty_page ex_env lastp
     \<and> script (ex_state ex_replies)
         = rs @ script (final (fetch ex_env ex_backend None (ex_state ex_replies)))
     \<and> list_all ok_reply rs
     \<and> map body rs = concat (map page_entries pages) @ [lastp]
     \<and> cache (final (fetch ex_env ex_backend None (ex_state ex_replies)))
         = Some ([] @ concat (map page_entries pages))
     \<and> cache_queue (final (fetch ex_env ex_backend None (ex_state ex_replies))) = [lastp]
     \<and> length (concat (map page_entries pages))
         = length pages + 3 * sum_list (map (page_count ex_env) pages)
     \<and> [ex_bug] = concat (map (page_yield ex_env) pages)"
proof -
  have c: "cache (ex_state ex_replies) = Some []"
    by (simp add: ex_state_def)
  show ?thesis
    by (rule cache_shape [OF ex_run c])
qed

lemma cached_page_bugs_append:
  "cached_page_bugs e bs items = (ys, Inr rest) \<Longrightarrow>
     cached_page_bugs e bs (items @ l) = (ys, Inr (rest @ l))"
proof (induction bs arbitrary: items ys)
  case Nil
  then show ?case by simp
next
  case (Cons bug bs)
  show ?case
    using Cons.prems
    by (auto simp: ebind_def py_next_def Cons.IH split: sum.splits prod.splits list.splits)
qed

lemma cached_bugs_append:
  "cached_bugs e c = (ys0, None) \<Longrightarrow>
     cached_bugs e (c @ l) = (case cached_bugs e l of (zs, out) \<Rightarrow> (ys0 @ zs, out))"
proof (induction "length c" arbitrary: c ys0 rule: less_induct)
  case less
  show ?case
  proof (cases c)
    case Nil
    with less.prems show ?thesis
      by (simp add: cached_bugs_Nil split: prod.splits)
  next
    case (Cons raw items1)
    with less.prems obtain bugs bs ys1 items2 zs where
      a: "json_loads e raw = Inr bugs" "ebind (get_key bugs ''bugs'') py_iter = Inr bs"
        "cached_page_bugs e bs items1 = (ys1, Inr items2)"
        "cached_bugs e items2 = (zs, None)" "ys0 = ys1 @ zs"
      by (subst (asm) cached_bugs.simps) (auto split: sum.splits prod.splits)
    from cached_page_bugs_length [OF a(3)] Cons have "length items2 < length c"
      by simp
    from less.hyps [OF this a(4)]
    have ih: "cached_bugs e (items2 @ l) = (case cached_bugs e l of (zs', out) \<Rightarrow> (zs @ zs', out))" .
    show ?thesis
      using Cons a(1,2,5) cached_page_bugs_append [OF a(3), of l] ih
      by (subst cached_bugs.simps) (simp split: prod.splits)
  qed
qed

text \<open>
  C1: after a run of \<^verbatim>\<open>fetch\<close> that ended normally, \<^verbatim>\<open>fetch_from_cache\<close>
  on the cache it left yields the bugs the cache replayed to before the run (\<open>ys0\<close>,
  none for a cache that was empty) followed by exactly the bugs the run yielded, the same
  records in the same order, and ends normally.
\<close>

theorem replay_fidelity:
  assumes "fetch e b from_date s = (ys, None, s')"
    and "cache s = Some c" and "cached_bugs e c = (ys0, None)"
  shows "fetch_from_cache e s' = (ys0 @ ys, None)"
proof -
  from fetch_completed [OF assms(1,2)] obtain pages where
    p: "list_all (well_formed e) pages" "cache s' = Some (c @ concat (map page_entries pages))"
      "ys = concat (map (page_yield e) pages)"
    by blast
  have "cached_bugs e (concat (map page_entries pages)) = (ys, None)"
    using cached_bugs_pages [OF p(1), of "[]"] p(3) by (simp add: cached_bugs_Nil)
  with cached_bugs_append [OF assms(3), of "concat (map page_entries pages)"] p(2)
  show ?thesis
    by (simp add: fetch_from_cache_def fetch_from_cache_body_def generator_exit_def)
qed

theorem replay_fidelity_witness:
  "fetch_from_cache ex_env (final (fetch ex_env ex_backend None (ex_state ex_replies)))
     = ([ex_bug], None)"
proof -
  have c: "cache (ex_state ex_replies) = Some []"
    by (simp add: ex_state_def)
  show ?thesis
    using replay_fidelity [OF ex_run c cached_bugs_Nil] by simp
qed

subsection \<open>A log cut short\<close>

lemma assemble_InrD:
  assumes "\<not> isl (assemble e bug (rc, rh, ra))"
  shows "\<exists>bug_id comments bug1 history bug2.
           get_key bug ''id'' = Inr bug_id \<and> parse_comments e bug_id rc = Inr comments
           \<and> set_key bug ''comments'' comments = Inr bug1
           \<and> parse_history e rh = Inr history
           \<and> set_key bug1 ''history'' history = Inr bug2"
proof -
  from isl_InrE [OF assms] obtain bug3 where "assemble e bug (rc, rh, ra) = Inr bug3"
    by blast
  then show ?thesis
    by (auto simp: ebind_def split: sum.splits)
qed

lemma parse_comments_loads:
  "parse_comments e bug_id rc = Inr v \<Longrightarrow> \<exists>d. json_loads e rc = Inr d"
  by (auto simp: parse_comments_def ebind_def split: sum.splits)

lemma parse_history_loads:
  "parse_history e rh = Inr v \<Longrightarrow> \<exists>d. json_loads e rh = Inr d"
  by (auto simp: parse_history_def ebind_def split: sum.splits)

text \<open>A bug whose three entries are not all there.\<close>

lemma cached_page_bugs_short:
  assumes "\<not> isl (assemble e bug (rc, rh, ra))" and "k < 3"
  shows "cached_page_bugs e (bug # bugs) (take k [rc, rh, ra]) = ([], Inl StopIteration)"
proof -
  from assemble_InrD [OF assms(1)] obtain bug_id comments history where
    a: "get_key bug ''id'' = Inr bug_id" "parse_comments e bug_id rc = Inr comments"
      "parse_history e rh = Inr history"
    by blast
  from parse_comments_loads [OF a(2)] obtain cdata where c: "json_loads e rc = Inr cdata"
    by blast
  from parse_history_loads [OF a(3)] obtain hdata where h: "json_loads e rh = Inr hdata"
    by blast
  from assms(2) consider "k = 0" | "k = 1" | "k = 2"
    by linarith
  then show ?thesis
  proof cases
    case 1
    then show ?thesis
      using a(1) by (simp add: py_next_def ebind_def)
  next
    case 2
    then show ?thesis
      using a(1) c by (simp add: py_next_def ebind_def)
  next
    case 3
    then have "take k [rc, rh, ra] = [rc, rh]"
      by (simp add: numeral_2_eq_2)
    then show ?thesis
      using a(1) c h by (simp add: py_next_def ebind_def)
  qed
qed

lemma cached_page_bugs_truncated:
  assumes "fit e bugs ts" and "k < 3 * length bugs"
  shows "cached_page_bugs e bugs (take k (concat (map triple_entries ts)))
           = (take (k div 3) (assembled e bugs ts), Inl StopIteration)"
  using assms
proof (induction bugs arbitrary: ts k)
  case Nil
  then show ?case by simp
next
  case (Cons bug bugs)
  from Cons.prems(1) obtain rc rh ra ts' where
    ts: "ts = (rc, rh, ra) # ts'" "\<not> isl (assemble e bug (rc, rh, ra))" "fit e bugs ts'"
    by (auto simp: fit_Cons)
  show ?case
  proof (cases "k < 3")
    case True
    then consider "k = 0" | "k = 1" | "k = 2"
      by linarith
    then have "take k (concat (map triple_entries ts)) = take k [rc, rh, ra]"
      using ts(1) by cases (simp_all add: numeral_2_eq_2)
    moreover from True have "k div 3 = 0" by simp
    ultimately show ?thesis
      using cached_page_bugs_short [OF ts(2) True, of bugs] by simp
  next
    case False
    then obtain j where j: "k = 3 + j"
      by (metis le_add_diff_inverse not_less)
    with Cons.prems(2) have jl: "j < 3 * length bugs" by simp
    have tk: "take k (concat (map triple_entries ts))
                = rc # rh # ra # take j (concat (map triple_entries ts'))"
      using ts(1) j by (simp add: numeral_3_eq_3)
    have dv: "k div 3 = Suc (j div 3)"
      using j by simp
    have "cached_page_bugs e (bug # bugs) (take k (concat (map triple_entries ts)))
            = cached_page_bugs e (bug # bugs)
                (rc # rh # ra # take j (concat (map triple_entries ts')))"
      by (simp only: tk)
    also have "\<dots> = (case cached_page_bugs e bugs (take j (concat (map triple_entries ts'))) of
                        (ys, r) \<Rightarrow> (projr (assemble e bug (rc, rh, ra)) # ys, r))"
      by (rule cached_page_bugs_step [OF ts(2)])
    also have "\<dots> = (projr (assemble e bug (rc, rh, ra)) # take (j div 3) (assembled e bugs ts'),
                       Inl StopIteration)"
      by (simp only: Cons.IH [OF ts(3) jl] prod.case)
    also have "\<dots> = (take (k div 3) (assembled e (bug # bugs) ts), Inl StopIteration)"
      by (simp only: dv ts(1) assembled_Cons take_Suc_Cons)
    finally show ?thesis .
  qed
qed

lemma cached_bugs_truncated_page:
  assumes "well_formed e p" and "0 < k" and "k < length (page_entries p)"
  shows "cached_bugs e (take k (page_entries p))
           = (take ((k - 1) div 3) (page_yield e p), Some StopIteration)"
proof -
  obtain raw ts where p: "p = (raw, ts)" by (cases p)
  with assms(1) obtain bugs where
    bugs: "page_bugs e raw = Inr bugs" "fit e bugs ts"
    by (auto split: sum.splits)
  then obtain data where
    d: "json_loads e raw = Inr data" "ebind (get_key data ''bugs'') py_iter = Inr bugs"
    by (auto simp: page_bugs_def ebind_def split: sum.splits)
  from assms(2) obtain j where j: "k = Suc j"
    by (cases k) auto
  with assms(3) p have jl: "j < 3 * length bugs"
    using length_fit [OF bugs(2)] by simp
  have tk: "take k (page_entries p) = raw # take j (concat (map triple_entries ts))"
    using p j by simp
  show ?thesis
    using d bugs(1) cached_page_bugs_truncated [OF bugs(2) jl] p j
    by (subst cached_bugs.simps) (simp add: tk)
qed

text \<open>The history entry is attached by position.\<close>

lemma assemble_history_swap:
  assumes "\<not> isl (assemble e bug (rc, rh, ra))" and "parse_history e rh' = Inr h'"
  shows "\<exists>y. assemble e bug (rc, rh', ra) = Inr y \<and> get_key y ''history'' = Inr h'"
proof -
  from isl_InrE [OF assms(1)] obtain bug3 where "assemble e bug (rc, rh, ra) = Inr bug3"
    by blast
  then obtain bug_id comments attachments where
    a: "get_key bug ''id'' = Inr bug_id" "parse_comments e bug_id rc = Inr comments"
      "parse_attachments e bug_id ra = Inr attachments"
    by (auto simp: ebind_def split: sum.splits)
  from a(1) obtain kvs where bug: "bug = JObj kvs"
    by (cases bug) auto
  show ?thesis
    using a assms(2) bug by (simp add: ebind_def update_conv')
qed

lemma fit_history_swap:
  assumes "fit e bugs ts" and "i < length ts" and "ts ! i = (rc, rh, ra)"
    and "parse_history e rh' = Inr h'"
  shows "fit e bugs (ts[i := (rc, rh', ra)])"
proof -
  have "\<not> isl (assemble e (bugs ! j) (ts[i := (rc, rh', ra)] ! j))" if "j < length bugs" for j
  proof (cases "j = i")
    case True
    from assms(1) that have "\<not> isl (assemble e (bugs ! j) (ts ! j))"
      by (simp add: fit_def list_all_length)
    with True assms(3) have "\<not> isl (assemble e (bugs ! j) (rc, rh, ra))"
      by simp
    from assemble_history_swap [OF this assms(4)] True assms(2) show ?thesis
      by auto
  next
    case False
    with assms(1) that show ?thesis
      by (simp add: fit_def list_all_length)
  qed
  with assms(1) show ?thesis
    by (simp add: fit_def list_all_length)
qed

lemma assembled_nth:
  "fit e bugs ts \<Longrightarrow> i < length ts \<Longrightarrow>
     assembled e bugs ts ! i = projr (assemble e (bugs ! i) (ts ! i))"
  by (simp add: fit_def assembled_def)

lemma cached_bugs_history_swap:
  assumes "list_all (well_formed e) pages" and "well_formed e (raw, ts)"
    and "i < length ts" and "ts ! i = (rc, rh, ra)" and "parse_history e rh' = Inr h'"
  shows "cached_bugs e (concat (map page_entries pages) @ page_entries (raw, ts[i := (rc, rh', ra)]))
           = (concat (map (page_yield e) pages) @ page_yield e (raw, ts[i := (rc, rh', ra)]), None)
         \<and> get_key (page_yield e (raw, ts[i := (rc, rh', ra)]) ! i) ''history'' = Inr h'"
proof -
  let ?ts = "ts[i := (rc, rh', ra)]"
  from assms(2) obtain bugs where
    bugs: "page_bugs e raw = Inr bugs" "bugs \<noteq> []" "fit e bugs ts"
    by (auto split: sum.splits)
  have f: "fit e bugs ?ts"
    by (rule fit_history_swap [OF bugs(3) assms(3-5)])
  with bugs have wf: "well_formed e (raw, ?ts)"
    by simp
  have "cached_bugs e (concat (map page_entries pages) @ page_entries (raw, ?ts))
          = (concat (map (page_yield e) pages) @ page_yield e (raw, ?ts), None)"
    using cached_bugs_pages [OF assms(1), of "page_entries (raw, ?ts)"]
      cached_bugs_page [OF wf, of "[]"]
    by (simp add: cached_bugs_Nil)
  moreover have "get_key (page_yield e (raw, ?ts) ! i) ''history'' = Inr h'"
  proof -
    from bugs(3) assms(3) have "\<not> isl (assemble e (bugs ! i) (ts ! i))"
      by (simp add: fit_def list_all_length)
    with assms(4) have "\<not> isl (assemble e (bugs ! i) (rc, rh, ra))"
      by simp
    from assemble_history_swap [OF this assms(5)] obtain y where
      y: "assemble e (bugs ! i) (rc, rh', ra) = Inr y" "get_key y ''history'' = Inr h'"
      by blast
    have "page_yield e (raw, ?ts) ! i = projr (assemble e (bugs ! i) (?ts ! i))"
      using bugs(1) assembled_nth [OF f, of i] assms(3) by simp
    with y assms(3) show ?thesis
      by simp
  qed
  ultimately show ?thesis by simp
qed

text \<open>
  C10, as the claim states it: a truncated log makes \<^verbatim>\<open>fetch_from_cache\<close> fail
  and never stop cleanly, and no validation ties an entry to the bug it is attached
  to. Two replays on the small server say otherwise. In the first the comments entry of
  bug 10 is replaced by the comments of bug 11: the lookup under
  \<^verbatim>\<open>str(bug_id)\<close> fails with \<^verbatim>\<open>KeyError\<close>, so a comments entry is tied
  to its bug. In the second the log ends after the history entry of bug 10 and the
  interpreter is one without PEP 479: the iteration ends with no exception at all.
\<close>

theorem misaligned_log_counterexample:
  "fetch_from_cache ex_env
     \<lparr>cache = Some [ex_page, ex_comments_11, ex_history, ex_attachments],
        cache_queue = [], script = [], sent = []\<rparr>
     = ([], Some KeyError)
   \<and> fetch_from_cache (ex_env\<lparr>generator_stop := False\<rparr>)
     \<lparr>cache = Some [ex_page, ex_comments, ex_history],
        cache_queue = [], script = [], sent = []\<rparr>
     = ([], None)"
  by code_simp

text \<open>
  C10, amended. When the committed content is a well-formed log cut short inside the
  entries of a page (after the page text itself, before the last entry of its last
  bug), \<^verbatim>\<open>fetch_from_cache\<close> yields the bugs whose three entries are all there;
  then \<^verbatim>\<open>next(cache_items)\<close> raises \<^verbatim>\<open>StopIteration\<close> inside the bug loop,
  where no handler catches it, and the bug with the missing entry is not yielded. The
  consumer sees a \<^verbatim>\<open>RuntimeError\<close> where PEP 479 is in force and the plain end
  of the iteration where it is not. No validation ties a history entry to the bug it is
  attached to: with the history entry of any bug of a page replaced by any text that
  decodes as a history, the replay ends normally and the bug carries that history.
\<close>

theorem misaligned_log:
  assumes "list_all (well_formed e) pages" and "well_formed e (raw, ts)"
  shows "(0 < k \<and> k < length (page_entries (raw, ts))
            \<and> cache s = Some (concat (map page_entries pages) @ take k (page_entries (raw, ts)))
          \<longrightarrow> fetch_from_cache e s
                = (concat (map (page_yield e) pages)
                     @ take ((k - 1) div 3) (page_yield e (raw, ts)),
                   if generator_stop e then Some RuntimeError else None))
         \<and> (i < length ts \<and> ts ! i = (rc, rh, ra) \<and> parse_history e rh' = Inr h'
            \<and> cache s' = Some (concat (map page_entries pages)
                               @ page_entries (raw, ts[i := (rc, rh', ra)]))
          \<longrightarrow> fetch_from_cache e s'
                = (concat (map (page_yield e) pages)
                     @ page_yield e (raw, ts[i := (rc, rh', ra)]), None)
              \<and> get_key (page_yield e (raw, ts[i := (rc, rh', ra)]) ! i) ''history'' = Inr h')"
proof (intro conjI impI)
  assume a: "0 < k \<and> k < length (page_entries (raw, ts))
    \<and> cache s = Some (concat (map page_entries pages) @ take k (page_entries (raw, ts)))"
  then have k: "0 < k" "k < length (page_entries (raw, ts))"
    by simp_all
  show "fetch_from_cache e s
          = (concat (map (page_yield e) pages) @ take ((k - 1) div 3) (page_yield e (raw, ts)),
             if generator_stop e then Some RuntimeError else None)"
    using a cached_bugs_pages [OF assms(1), of "take k (page_entries (raw, ts))"]
      cached_bugs_truncated_page [OF assms(2) k]
    by (simp add: fetch_from_cache_def fetch_from_cache_body_def generator_exit_def)
next
  assume b: "i < length ts \<and> ts ! i = (rc, rh, ra) \<and> parse_history e rh' = Inr h'
    \<and> cache s' = Some (concat (map page_entries pages)
                       @ page_entries (raw, ts[i := (rc, rh', ra)]))"
  then have i: "i < length ts" "ts ! i = (rc, rh, ra)" "parse_history e rh' = Inr h'"
    by simp_all
  from cached_bugs_history_swap [OF assms i] b
  show "fetch_from_cache e s'
          = (concat (map (page_yield e) pages) @ page_yield e (raw, ts[i := (rc, rh', ra)]), None)"
    by (simp add: fetch_from_cache_def fetch_from_cache_body_def generator_exit_def)
  from cached_bugs_history_swap [OF assms i]
  show "get_key (page_yield e (raw, ts[i := (rc, rh', ra)]) ! i) ''history'' = Inr h'"
    by simp
qed

theorem misaligned_log_witness:
  "fetch_from_cache ex_env
     \<lparr>cache = Some [ex_page, ex_comments, ex_history, ex_attachments, ex_page, ex_comments, ex_history],
        cache_queue = [], script = [], sent = []\<rparr>
     = ([ex_bug], Some RuntimeError)
   \<and> fetch_from_cache ex_env
     \<lparr>cache = Some [ex_page, ex_comments, ex_history, ex_attachments,
                     ex_page, ex_comments, ex_history_11, ex_attachments],
        cache_queue = [], script = [], sent = []\<rparr>
     = ([ex_bug, JObj [(''id'', JInt 10), (''comments'', JArr [JInt 1]),
                      (''history'', JArr [JInt 5]), (''attachments'', JArr [JInt 3])]], None)
   \<and> get_key (JObj [(''id'', JInt 10), (''comments'', JArr [JInt 1]),
                    (''history'', JArr [JInt 5]), (''attachments'', JArr [JInt 3])]) ''history''
     = Inr (JArr [JInt 5])"
proof -
  let ?ts = "[(ex_comments, ex_history, ex_attachments)]"
  let ?s = "\<lparr>cache = Some [ex_page, ex_comments, ex_history, ex_attachments, ex_page, ex_comments, ex_history],
        cache_queue = [], script = [], sent = []\<rparr>"
  let ?s' = "\<lparr>cache = Some [ex_page, ex_comments, ex_history, ex_attachments,
                     ex_page, ex_comments, ex_history_11, ex_attachments],
        cache_queue = [], script = [], sent = []\<rparr>"
  have wf: "well_formed ex_env (ex_page, ?ts)"
    using ex_pages_well_formed by (simp add: ex_pages_def)
  have a: "(0::nat) < 3 \<and> 3 < length (page_entries (ex_page, ?ts))
      \<and> cache ?s = Some (concat (map page_entries ex_pages) @ take 3 (page_entries (ex_page, ?ts)))"
    by (simp add: ex_pages_def numeral_3_eq_3)
  have h: "parse_history ex_env ex_history_11 = Inr (JArr [JInt 5])"
    by (simp add: parse_history_def json_loads_def ex_env_def ex_loads_def ebind_def
        ex_page_def ex_comments_def ex_history_def ex_attachments_def ex_empty_page_def
        ex_comments_11_def ex_history_11_def)
  have b: "(0::nat) < length ?ts \<and> ?ts ! 0 = (ex_comments, ex_history, ex_attachments)
      \<and> parse_history ex_env ex_history_11 = Inr (JArr [JInt 5])
      \<and> cache ?s' = Some (concat (map page_entries ex_pages)
           @ page_entries (ex_page, ?ts[0 := (ex_comments, ex_history_11, ex_attachments)]))"
    using h by (simp add: ex_pages_def)
  have y: "take ((3 - 1) div 3) (page_yield ex_env (ex_page, ?ts)) = []"
    by simp
  have g: "generator_stop ex_env"
    by (simp add: ex_env_def)
  have y': "page_yield ex_env (ex_page, ?ts[0 := (ex_comments, ex_history_11, ex_attachments)])
      = [JObj [(''id'', JInt 10), (''comments'', JArr [JInt 1]),
               (''history'', JArr [JInt 5]), (''attachments'', JArr [JInt 3])]]"
    by (simp add: page_bugs_def json_loads_def ex_env_def ex_loads_def ebind_def
        parse_comments_def parse_history_def parse_attachments_def
        ex_page_def ex_comments_def ex_history_def ex_attachments_def ex_empty_page_def
        ex_comments_11_def ex_history_11_def
        str_int_def dec_nat.simps digit_chars_def)
  from misaligned_log [OF ex_pages_well_formed wf, of 3 ?s 0 ex_comments ex_history ex_attachments
      ex_history_11 "JArr [JInt 5]" ?s']
  have "fetch_from_cache ex_env ?s
          = (concat (map (page_yield ex_env) ex_pages) @ take ((3 - 1) div 3) (page_yield ex_env (ex_page, ?ts)),
             if generator_stop ex_env then Some RuntimeError else None)"
    and "fetch_from_cache ex_env ?s'
          = (concat (map (page_yield ex_env) ex_pages)
               @ page_yield ex_env (ex_page, ?ts[0 := (ex_comments, ex_history_11, ex_attachments)]), None)"
    using a b by blast+
  then show ?thesis
    by (simp only: y y' g ex_pages_yield if_True append_Nil2) simp
qed

subsection \<open>A call refused by the server\<close>

text \<open>A bug one of whose sub-fetches is refused by the server.\<close>

lemma fetch_page_bugs_short:
  assumes "\<not> isl (assemble e bug (rc, rh, ra))" and "k < 3"
    and "list_all ok_reply rs" and "map body rs = take k [rc, rh, ra]"
    and "script s = rs @ Reply status x # rest"
    and "raise_for_status status = Some err"
  shows "\<exists>s'. fetch_page_bugs e b (bug # bugs) s = ([], Some err, s')
           \<and> cache s' = cache s \<and> cache_queue s' = cache_queue s @ take k [rc, rh, ra]
           \<and> script s' = rest"
proof -
  from assemble_InrD [OF assms(1)] obtain bug_id comments bug1 history bug2 where
    a: "get_key bug ''id'' = Inr bug_id" "parse_comments e bug_id rc = Inr comments"
      "set_key bug ''comments'' comments = Inr bug1" "parse_history e rh = Inr history"
      "set_key bug1 ''history'' history = Inr bug2"
    by blast
  from assms(2) consider "k = 0" | "k = 1" | "k = 2"
    by linarith
  then show ?thesis
  proof cases
    case 1
    with assms(4,5) have sc: "script s = Reply status x # rest"
      by simp
    from call_bad [OF sc assms(6), of "client b" "urljoin e [JStr ''bug'', bug_id, JStr ''comment'']" "[]"]
    obtain s1 where
      "call (client b) (urljoin e [JStr ''bug'', bug_id, JStr ''comment'']) [] s = (Inl err, s1)"
      "cache s1 = cache s" "cache_queue s1 = cache_queue s" "script s1 = rest"
      by blast
    with a(1) 1 show ?thesis
      by (simp add: fetch_and_parse_comments_eq)
  next
    case 2
    with assms(3,4,5) obtain r1 where
      r: "rs = [r1]" "ok_reply r1" "body r1 = rc" "script s = r1 # Reply status x # rest"
      by (auto simp: map_eq_Cons_conv)
    from call_ok [OF r(4) r(2), of "client b" "urljoin e [JStr ''bug'', bug_id, JStr ''comment'']" "[]"] r(3)
    obtain s1 where
      s1: "call (client b) (urljoin e [JStr ''bug'', bug_id, JStr ''comment'']) [] s = (Inr rc, s1)"
        "cache s1 = cache s" "cache_queue s1 = cache_queue s" "script s1 = Reply status x # rest"
      by blast
    let ?s1 = "push_cache_queue rc s1"
    have q1: "script ?s1 = Reply status x # rest" using s1 by simp
    from call_bad [OF q1 assms(6), of "client b" "urljoin e [JStr ''bug'', bug_id, JStr ''history'']" "[]"]
    obtain s2 where
      s2: "call (client b) (urljoin e [JStr ''bug'', bug_id, JStr ''history'']) [] ?s1 = (Inl err, s2)"
        "cache s2 = cache ?s1" "cache_queue s2 = cache_queue ?s1" "script s2 = rest"
      by blast
    have "fetch_page_bugs e b (bug # bugs) s = ([], Some err, s2)"
      using a s1(1) s2(1)
      by (simp add: fetch_and_parse_comments_eq fetch_and_parse_history_eq)
    with s1 s2 2 show ?thesis
      by (simp add: push_cache_queue_def)
  next
    case 3
    then have tk: "take k [rc, rh, ra] = [rc, rh]"
      by (simp add: numeral_2_eq_2)
    with assms(3,4,5) obtain r1 r2 where
      r: "rs = [r1, r2]" "ok_reply r1" "body r1 = rc" "ok_reply r2" "body r2 = rh"
        "script s = r1 # r2 # Reply status x # rest"
      by (auto simp: map_eq_Cons_conv)
    from call_ok [OF r(6) r(2), of "client b" "urljoin e [JStr ''bug'', bug_id, JStr ''comment'']" "[]"] r(3)
    obtain s1 where
      s1: "call (client b) (urljoin e [JStr ''bug'', bug_id, JStr ''comment'']) [] s = (Inr rc, s1)"
        "cache s1 = cache s" "cache_queue s1 = cache_queue s"
        "script s1 = r2 # Reply status x # rest"
      by blast
    let ?s1 = "push_cache_queue rc s1"
    have q1: "script ?s1 = r2 # Reply status x # rest" using s1 by simp
    from call_ok [OF q1 r(4), of "client b" "urljoin e [JStr ''bug'', bug_id, JStr ''history'']" "[]"] r(5)
    obtain s2 where
      s2: "call (client b) (urljoin e [JStr ''bug'', bug_id, JStr ''history'']) [] ?s1 = (Inr rh, s2)"
        "cache s2 = cache ?s1" "cache_queue s2 = cache_queue ?s1"
        "script s2 = Reply status x # rest"
      by blast
    let ?s2 = "push_cache_queue rh s2"
    have q2: "script ?s2 = Reply status x # rest" using s2 by simp
    from call_bad [OF q2 assms(6), of "client b" "urljoin e [JStr ''bug'', bug_id, JStr ''attachment'']"
        "[(''exclude_fields'', JStr ''data'')]"]
    obtain s3 where
      s3: "call (client b) (urljoin e [JStr ''bug'', bug_id, JStr ''attachment''])
             [(''exclude_fields'', JStr ''data'')] ?s2 = (Inl err, s3)"
        "cache s3 = cache ?s2" "cache_queue s3 = cache_queue ?s2" "script s3 = rest"
      by blast
    have "fetch_page_bugs e b (bug # bugs) s = ([], Some err, s3)"
      using a s1(1) s2(1) s3(1)
      by (simp add: fetch_and_parse_comments_eq fetch_and_parse_history_eq
          fetch_and_parse_attachments_eq)
    with s1 s2 s3 tk show ?thesis
      by (simp add: push_cache_queue_def)
  qed
qed

lemma fetch_page_bugs_refused:
  assumes "fit e bugs ts" and "k < 3 * length bugs"
    and "list_all ok_reply rs" and "map body rs = take k (concat (map triple_entries ts))"
    and "script s = rs @ Reply status x # rest"
    and "raise_for_status status = Some err"
  shows "\<exists>s'. fetch_page_bugs e b bugs s = (take (k div 3) (assembled e bugs ts), Some err, s')
           \<and> cache s' = cache s
           \<and> cache_queue s' = cache_queue s @ take k (concat (map triple_entries ts))
           \<and> script s' = rest"
  using assms(1-5)
proof (induction bugs arbitrary: ts k rs s)
  case Nil
  then show ?case by simp
next
  case (Cons bug bugs)
  from Cons.prems(1) obtain rc rh ra ts' where
    ts: "ts = (rc, rh, ra) # ts'" "\<not> isl (assemble e bug (rc, rh, ra))" "fit e bugs ts'"
    by (auto simp: fit_Cons)
  show ?case
  proof (cases "k < 3")
    case True
    then consider "k = 0" | "k = 1" | "k = 2"
      by linarith
    then have tk: "take k (concat (map triple_entries ts)) = take k [rc, rh, ra]"
      using ts(1) by cases (simp_all add: numeral_2_eq_2)
    from True have dv: "k div 3 = 0" by simp
    from Cons.prems(4) have m: "map body rs = take k [rc, rh, ra]"
      by (simp only: tk)
    from fetch_page_bugs_short [OF ts(2) True Cons.prems(3) m Cons.prems(5) assms(6), of b bugs]
    show ?thesis
      by (simp only: tk dv take_0)
  next
    case False
    then obtain j where j: "k = 3 + j"
      by (metis le_add_diff_inverse not_less)
    with Cons.prems(2) have jl: "j < 3 * length bugs" by simp
    have tk: "take k (concat (map triple_entries ts))
                = rc # rh # ra # take j (concat (map triple_entries ts'))"
      using ts(1) j by (simp add: numeral_3_eq_3)
    have dv: "k div 3 = Suc (j div 3)"
      using j by simp
    from Cons.prems(4) tk obtain r1 r2 r3 rs' where
      rs: "rs = r1 # r2 # r3 # rs'" "body r1 = rc" "body r2 = rh" "body r3 = ra"
        "map body rs' = take j (concat (map triple_entries ts'))"
      by (auto simp: map_eq_Cons_conv)
    from Cons.prems(3) rs(1) have ok: "ok_reply r1" "ok_reply r2" "ok_reply r3" "list_all ok_reply rs'"
      by simp_all
    from Cons.prems(5) rs(1) have sc: "script s = r1 # r2 # r3 # (rs' @ Reply status x # rest)"
      by simp
    from fetch_page_bugs_step [OF ts(2) sc ok(1-3) rs(2-4), of b bugs] obtain s3 where
      s3: "fetch_page_bugs e b (bug # bugs) s =
             (case fetch_page_bugs e b bugs s3 of
                (ys, out, s4) \<Rightarrow> (projr (assemble e bug (rc, rh, ra)) # ys, out, s4))"
        "cache s3 = cache s" "cache_queue s3 = cache_queue s @ [rc, rh, ra]"
        "script s3 = rs' @ Reply status x # rest"
      by blast
    from Cons.IH [OF ts(3) jl ok(4) rs(5) s3(4)] obtain s' where
      s': "fetch_page_bugs e b bugs s3 = (take (j div 3) (assembled e bugs ts'), Some err, s')"
        "cache s' = cache s3"
        "cache_queue s' = cache_queue s3 @ take j (concat (map triple_entries ts'))"
        "script s' = rest"
      by blast
    have "fetch_page_bugs e b (bug # bugs) s
            = (take (k div 3) (assembled e (bug # bugs) ts), Some err, s')"
      by (simp only: s3(1) s'(1) prod.case dv ts(1) assembled_Cons take_Suc_Cons)
    moreover have "cache s' = cache s"
      using s'(2) s3(2) by simp
    moreover have "cache_queue s' = cache_queue s @ take k (concat (map triple_entries ts))"
      using s'(3) s3(3) by (simp add: tk)
    ultimately show ?thesis
      using s'(4) by blast
  qed
qed


text \<open>The turn of the loop in which a call is refused.\<close>

lemma fetch_bugs_refused_turn:
  assumes "k = 0 \<or> well_formed e p" and "k < length (page_entries p)"
    and "list_all ok_reply rs" and "map body rs = take k (page_entries p)"
    and "script s = rs @ Reply status x # rest"
    and "raise_for_status status = Some err"
  shows "\<exists>s'. fetch_bugs e b d off s = (take ((k - 1) div 3) (page_yield e p), Some err, s')
           \<and> cache s' = cache s
           \<and> cache_queue s' = cache_queue s @ take k (page_entries p)
           \<and> script s' = rest"
proof (cases k)
  case 0
  with assms(4,5) have sc: "script s = Reply status x # rest"
    by simp
  from client_bugs_bad [OF sc assms(6), of e "client b" d off "max_bugs b"] obtain s1 where
    s1: "client_bugs e (client b) d off (max_bugs b) s = (Inl err, s1)"
      "cache s1 = cache s" "cache_queue s1 = cache_queue s" "script s1 = rest"
    by blast
  have "fetch_bugs e b d off s = ([], Some err, s1)"
    using s1(1) by (subst fetch_bugs.simps) simp
  with s1 0 show ?thesis by simp
next
  case (Suc j)
  with assms(1) have wf: "well_formed e p" by simp
  obtain raw ts where p: "p = (raw, ts)" by (cases p)
  with wf obtain bugs where
    bugs: "page_bugs e raw = Inr bugs" "bugs \<noteq> []" "fit e bugs ts"
    by (auto split: sum.splits)
  then obtain data bl where
    dd: "json_loads e raw = Inr data" "get_key data ''bugs'' = Inr bl" "py_iter bl = Inr bugs"
    by (auto simp: page_bugs_Inr)
  have len: "py_len bl = Inr (length bugs)"
    by (rule py_len_iter [OF dd(3)])
  from assms(2) Suc p have jl: "j < 3 * length bugs"
    using length_fit [OF bugs(3)] by simp
  have tk: "take k (page_entries p) = raw # take j (concat (map triple_entries ts))"
    using p Suc by simp
  from assms(4) tk obtain r rs' where
    rs: "rs = r # rs'" "body r = raw" "map body rs' = take j (concat (map triple_entries ts))"
    by (auto simp: map_eq_Cons_conv)
  from assms(3) rs(1) have ok: "ok_reply r" "list_all ok_reply rs'"
    by simp_all
  from assms(5) rs(1) have sc: "script s = r # (rs' @ Reply status x # rest)"
    by simp
  from client_bugs_ok [OF sc ok(1), of e "client b" d off "max_bugs b"] rs(2) obtain s1 where
    s1: "client_bugs e (client b) d off (max_bugs b) s = (Inr raw, s1)"
      "cache s1 = cache s" "cache_queue s1 = cache_queue s"
      "script s1 = rs' @ Reply status x # rest"
    by blast
  let ?s1 = "push_cache_queue raw s1"
  have q1: "script ?s1 = rs' @ Reply status x # rest" using s1 by simp
  from fetch_page_bugs_refused [OF bugs(3) jl ok(2) rs(3) q1 assms(6), of b] obtain s2 where
    s2: "fetch_page_bugs e b bugs ?s1 = (take (j div 3) (assembled e bugs ts), Some err, s2)"
      "cache s2 = cache ?s1"
      "cache_queue s2 = cache_queue ?s1 @ take j (concat (map triple_entries ts))"
      "script s2 = rest"
    by blast
  have "fetch_bugs e b d off s = (take (j div 3) (assembled e bugs ts), Some err, s2)"
    using s1(1) dd len bugs(2) s2(1) by (subst fetch_bugs.simps) simp
  moreover have "take ((k - 1) div 3) (page_yield e p) = take (j div 3) (assembled e bugs ts)"
    using Suc p bugs(1) by simp
  moreover have "cache s2 = cache s" "cache_queue s2 = cache_queue s @ take k (page_entries p)"
    using s1 s2 tk by (simp_all add: push_cache_queue_def)
  ultimately show ?thesis
    using s2(4) by simp
qed

lemma fetch_bugs_refused:
  assumes "list_all (well_formed e) pages"
    and "k = 0 \<or> well_formed e p" and "k < length (page_entries p)"
    and "list_all ok_reply rs"
    and "map body rs = concat (map page_entries pages) @ take k (page_entries p)"
    and "script s = rs @ Reply status x # rest"
    and "raise_for_status status = Some err"
    and "cache s = Some c" and "cache_queue s = []"
  shows "\<exists>s'. fetch_bugs e b d off s =
           (concat (map (page_yield e) pages) @ take ((k - 1) div 3) (page_yield e p),
            Some err, s')
           \<and> script s' = rest
           \<and> cache s' = Some (c @ concat (map page_entries pages))
           \<and> cache_queue s' = take k (page_entries p)"
  using assms(1,4,5,6,8,9)
proof (induction pages arbitrary: rs s off c)
  case Nil
  then have m: "map body rs = take k (page_entries p)"
    by simp
  from fetch_bugs_refused_turn [OF assms(2,3) Nil(2) m Nil(4) assms(7), of b d off] Nil(5,6)
  show ?case by auto
next
  case (Cons q pages)
  obtain raw ts where q: "q = (raw, ts)" by (cases q)
  from Cons.prems(3) q obtain r rs' where
    r: "rs = r # rs'" "body r = raw"
      "map body rs' = concat (map triple_entries ts)
         @ (concat (map page_entries pages) @ take k (page_entries p))"
    by (auto simp: map_eq_Cons_conv)
  from map_body_append [OF r(3)] r(1,2) obtain rs1 rs2 where
    rs: "rs = r # rs1 @ rs2" "body r = raw" "map body rs1 = concat (map triple_entries ts)"
      "map body rs2 = concat (map page_entries pages) @ take k (page_entries p)"
    by blast
  from Cons.prems(2) rs(1) have ok: "ok_reply r" "list_all ok_reply rs1" "list_all ok_reply rs2"
    by simp_all
  from Cons.prems(1) q have wf: "well_formed e (raw, ts)" "list_all (well_formed e) pages"
    by simp_all
  from Cons.prems(4) rs(1) have sc: "script s = r # rs1 @ (rs2 @ Reply status x # rest)"
    by simp
  from fetch_bugs_turn_ok [OF wf(1) sc ok(1) rs(2) ok(2) rs(3), of b d off] obtain s2 where
    s2: "fetch_bugs e b d off s =
           (case fetch_bugs e b d (off + max_bugs b) (flush_cache_queue s2) of
              (zs, out, s3) \<Rightarrow> (page_yield e (raw, ts) @ zs, out, s3))"
      "cache s2 = cache s" "cache_queue s2 = cache_queue s @ page_entries (raw, ts)"
      "script s2 = rs2 @ Reply status x # rest"
    by blast
  let ?s = "flush_cache_queue s2"
  have f: "script ?s = rs2 @ Reply status x # rest"
    "cache ?s = Some (c @ page_entries (raw, ts))" "cache_queue ?s = []"
    using s2(2-4) Cons.prems(5,6) by (simp_all add: flush_cache_queue_def)
  from Cons.IH [OF wf(2) ok(3) rs(4) f, of "off + max_bugs b"] obtain s' where
    s': "fetch_bugs e b d (off + max_bugs b) ?s =
           (concat (map (page_yield e) pages) @ take ((k - 1) div 3) (page_yield e p),
            Some err, s')"
      "script s' = rest"
      "cache s' = Some ((c @ page_entries (raw, ts)) @ concat (map page_entries pages))"
      "cache_queue s' = take k (page_entries p)"
    by blast
  with s2(1) q show ?case by simp
qed

text \<open>
  C6: the server answers the calls of some well-formed pages, then the first \<open>k\<close>
  calls of a further page \<open>p\<close> (none of them for \<open>k = 0\<close>, where the bug list
  call itself is refused), and answers the next call with a status from 400 to 599.
  Then \<^verbatim>\<open>fetch\<close> raises the \<^verbatim>\<open>HTTPError\<close> of that status at once: the
  replies after the refusal are left unread, so no call is made again. The committed
  content has grown by the entries of the completed pages only; the \<open>k\<close> entries of
  the page under way stay in the queue, unflushed. The bugs yielded are those of the
  completed pages and the bugs of \<open>p\<close> assembled before the refusal.
\<close>

theorem transport_error_atomicity:
  assumes "list_all (well_formed e) pages"
    and "k = 0 \<or> well_formed e p" and "k < length (page_entries p)"
    and "list_all ok_reply rs"
    and "map body rs = concat (map page_entries pages) @ take k (page_entries p)"
    and "script s = rs @ Reply status x # rest"
    and "400 \<le> status" and "status < 600"
    and "cache s = Some c"
  shows "raised (fetch e b from_date s) = Some (HTTPError status)
         \<and> script (final (fetch e b from_date s)) = rest
         \<and> cache (final (fetch e b from_date s)) = Some (c @ concat (map page_entries pages))
         \<and> cache_queue (final (fetch e b from_date s)) = take k (page_entries p)
         \<and> yielded (fetch e b from_date s)
             = concat (map (page_yield e) pages) @ take ((k - 1) div 3) (page_yield e p)"
proof -
  let ?d = "case from_date of None \<Rightarrow> DEFAULT_DATETIME e | Some d \<Rightarrow> d"
  let ?s = "purge_cache_queue s"
  have st: "raise_for_status status = Some (HTTPError status)"
    using assms(7,8) by (simp add: raise_for_status_def)
  have s: "script ?s = rs @ Reply status x # rest" "cache ?s = Some c" "cache_queue ?s = []"
    using assms(6,9) by (simp_all add: purge_cache_queue_def)
  from fetch_bugs_refused [OF assms(1-5) s(1) st s(2,3), of b ?d 0]
  show ?thesis
    by (auto simp: fetch_def yielded_def raised_def final_def)
qed

theorem transport_error_atomicity_witness:
  "raised (fetch ex_env ex_backend None (ex_state [Reply 200 ex_page, Reply 500 [], NoReply]))
     = Some (HTTPError 500)
   \<and> script (final (fetch ex_env ex_backend None
        (ex_state [Reply 200 ex_page, Reply 500 [], NoReply]))) = [NoReply]
   \<and> cache (final (fetch ex_env ex_backend None
        (ex_state [Reply 200 ex_page, Reply 500 [], NoReply]))) = Some []
   \<and> cache_queue (final (fetch ex_env ex_backend None
        (ex_state [Reply 200 ex_page, Reply 500 [], NoReply]))) = [ex_page]
   \<and> yielded (fetch ex_env ex_backend None
        (ex_state [Reply 200 ex_page, Reply 500 [], NoReply])) = []"
proof -
  let ?p = "(ex_page, [(ex_comments, ex_history, ex_attachments)])"
  have 1: "list_all (well_formed ex_env) []" by simp
  have 2: "(1::nat) = 0 \<or> well_formed ex_env ?p"
    using ex_pages_well_formed by (simp add: ex_pages_def)
  have 3: "1 < length (page_entries ?p)" by simp
  have 4: "list_all ok_reply [Reply 200 ex_page]"
    by (simp add: raise_for_status_def)
  have 5: "map body [Reply 200 ex_page] = concat (map page_entries []) @ take 1 (page_entries ?p)"
    by simp
  have 6: "script (ex_state [Reply 200 ex_page, Reply 500 [], NoReply])
             = [Reply 200 ex_page] @ Reply 500 [] # [NoReply]"
    by (simp add: ex_state_def)
  have 7: "(400::nat) \<le> 500" "(500::nat) < 600" by simp_all
  have 8: "cache (ex_state [Reply 200 ex_page, Reply 500 [], NoReply]) = Some []"
    by (simp add: ex_state_def)
  show ?thesis
    using transport_error_atomicity [OF 1 2 3 4 5 6 7 8, of ex_backend None]
    by simp
qed

subsection \<open>The extraction helpers\<close>

text \<open>
  C9: for an item with an \<^verbatim>\<open>id\<close> field and a \<^verbatim>\<open>last_change_time\<close> field
  that \<^verbatim>\<open>str_to_datetime\<close> parses, \<^verbatim>\<open>metadata_id\<close> returns
  \<^verbatim>\<open>str\<close> of the identifier and \<^verbatim>\<open>metadata_updated_on\<close> returns the
  timestamp of the parsed date, which counts the seconds from the epoch in UTC: the
  reading of the date's own clock less the offset of its timezone.
\<close>

theorem extraction_helpers:
  assumes "get_key item ''id'' = Inr v"
    and "get_key item ''last_change_time'' = Inr ts"
    and "str_to_datetime e ts = Inr dt"
  shows "metadata_id e item = Inr (py_str (repr e) v)
         \<and> metadata_updated_on e item
             = Inr (real_of_int (wall dt - utcoffset dt) + real (microsecond dt) / 1000000)"
  using assms by (simp add: metadata_id_def metadata_updated_on_def timestamp_def ebind_def)

theorem extraction_helpers_witness:
  "metadata_id ex_env
     (JObj [(''id'', JInt 10), (''last_change_time'', JStr ''2016-06-01T10:00:00+02:00'')])
     = Inr ''10''
   \<and> metadata_updated_on ex_env
     (JObj [(''id'', JInt 10), (''last_change_time'', JStr ''2016-06-01T10:00:00+02:00'')])
     = Inr 1464768000"
proof -
  let ?item = "JObj [(''id'', JInt 10), (''last_change_time'', JStr ''2016-06-01T10:00:00+02:00'')]"
  have 1: "get_key ?item ''id'' = Inr (JInt 10)"
    by simp
  have 2: "get_key ?item ''last_change_time'' = Inr (JStr ''2016-06-01T10:00:00+02:00'')"
    by simp
  have 3: "str_to_datetime ex_env (JStr ''2016-06-01T10:00:00+02:00'')
             = Inr \<lparr>wall = 1464775200, microsecond = 0, utcoffset = 7200\<rparr>"
    by (simp add: ex_env_def ex_str_to_datetime_def)
  have 4: "py_str (repr ex_env) (JInt 10) = ''10''"
    by (simp add: str_int_def dec_nat.simps digit_chars_def)
  show ?thesis
    using extraction_helpers [OF 1 2 3] 4 by simp
qed

end
